theory Spec2Isabelle
  imports Main
begin

section \<open>The falling-block game of \<open>tetris_web/script.js\<close>\<close>

text \<open>
  The script keeps its state in globals (\<open>board\<close>, \<open>score\<close>, \<open>currentPiece\<close>,
  \<open>currentX\<close>, \<open>currentY\<close>) and in the arrays of the shape catalog \<open>PIECES\<close>.
  The model passes that state explicitly. Every place where the script can raise a
  \<open>TypeError\<close> (a property read on \<open>undefined\<close>) is a branch returning \<open>Inl TypeError\<close>.
  Canvas drawing and the text of the score element are output only and are not modelled;
  the game-over \<open>alert\<close> is counted.
\<close>

subsection \<open>Constants and values\<close>

definition ROWS :: nat where "ROWS = 20"
definition COLS :: nat where "COLS = 10"

text \<open>
  A board cell holds the number \<open>EMPTY = 0\<close> or a colour string. \<open>Hole\<close> is what a read
  outside a row's elements yields (\<open>undefined\<close>), and what an indexed write beyond the end
  of a row leaves between the old end and the new element.
\<close>

datatype cell = EMPTY | Color string | Hole

type_synonym board = "cell list list"

text \<open>A mask element is a number; \<open>row[i]\<close> outside the row is \<open>undefined\<close>.\<close>

datatype mval = Num nat | Undefined

type_synonym mask = "mval list list"

datatype jserror = TypeError

fun truthy :: "mval \<Rightarrow> bool" where
  "truthy (Num n) = (n \<noteq> 0)"
| "truthy Undefined = False"

subsection \<open>Array primitives\<close>

text \<open>\<open>board[i]\<close>: a row, or \<open>undefined\<close> (here \<open>None\<close>) for any index that is not an element.\<close>

definition js_row :: "board \<Rightarrow> int \<Rightarrow> cell list option" where
  "js_row b i = (if 0 \<le> i \<and> i < int (length b) then Some (b ! nat i) else None)"

text \<open>\<open>row[j]\<close> on a board row.\<close>

definition js_cell :: "cell list \<Rightarrow> int \<Rightarrow> cell" where
  "js_cell r j = (if 0 \<le> j \<and> j < int (length r) then r ! nat j else Hole)"

text \<open>\<open>row[i]\<close> on a mask row.\<close>

definition js_nth :: "mval list \<Rightarrow> nat \<Rightarrow> mval" where
  "js_nth r i = (if i < length r then r ! i else Undefined)"

text \<open>
  \<open>row[j] = v\<close>: inside the row it replaces the element; beyond the end it grows the row,
  leaving holes; a negative \<open>j\<close> sets a property named \<open>"-1"\<close>, which is no element of the
  array and which no function of the script reads (every read has \<open>newX >= 0\<close> before it).
\<close>

definition js_store :: "cell list \<Rightarrow> int \<Rightarrow> cell \<Rightarrow> cell list" where
  "js_store r j v =
     (if j < 0 then r
      else if nat j < length r then r[nat j := v]
      else r @ replicate (nat j - length r) Hole @ [v])"

text \<open>\<open>board[i][j] = v\<close>: raises when \<open>board[i]\<close> is \<open>undefined\<close>.\<close>

definition setCell :: "board \<Rightarrow> int \<Rightarrow> int \<Rightarrow> cell \<Rightarrow> jserror + board" where
  "setCell b i j v =
     (case js_row b i of
        None \<Rightarrow> Inl TypeError
      | Some r \<Rightarrow> Inr (b[nat i := js_store r j v]))"

text \<open>
  \<open>Array.prototype.every\<close> with the element's index: stops at the first element whose
  callback returns false; an exception in the callback leaves the loop.
\<close>

fun js_every :: "('a \<Rightarrow> nat \<Rightarrow> jserror + bool) \<Rightarrow> nat \<Rightarrow> 'a list \<Rightarrow> jserror + bool" where
  "js_every f i [] = Inr True"
| "js_every f i (v # vs) =
     (case f v i of
        Inl e \<Rightarrow> Inl e
      | Inr ok \<Rightarrow> if ok then js_every f (Suc i) vs else Inr False)"

text \<open>\<open>Array.prototype.forEach\<close> with the element's index, threading the mutated board.\<close>

fun js_forEach :: "('a \<Rightarrow> nat \<Rightarrow> 's \<Rightarrow> jserror + 's) \<Rightarrow> nat \<Rightarrow> 'a list \<Rightarrow> 's \<Rightarrow> jserror + 's" where
  "js_forEach f i [] s = Inr s"
| "js_forEach f i (v # vs) s =
     (case f v i s of
        Inl e \<Rightarrow> Inl e
      | Inr s' \<Rightarrow> js_forEach f (Suc i) vs s')"

subsection \<open>Board creation (\<open>createBoard\<close>)\<close>

text \<open>
  \<open>board[row] = []\<close> replaces row \<open>row\<close> or, at \<open>row = board.length\<close>, appends it. The loop
  counts up from 0, so \<open>row\<close> never exceeds the current length.
\<close>

definition set_row :: "board \<Rightarrow> nat \<Rightarrow> cell list \<Rightarrow> board" where
  "set_row b i r = (if i < length b then b[i := r] else b @ [r])"

definition createBoard :: "board \<Rightarrow> board" where
  "createBoard b =
     fold (\<lambda>row b. set_row b row (fold (\<lambda>col r. js_store r (int col) EMPTY) [0..<COLS] []))
       [0..<ROWS] b"

subsection \<open>Move validation (\<open>isValidMove\<close>)\<close>

text \<open>
  The callback of the inner \<open>every\<close>. The conjunction is evaluated left to right and stops
  at the first false conjunct; the lookup \<open>board[newY][newX]\<close> is its last conjunct and
  raises when \<open>board[newY]\<close> is \<open>undefined\<close>.
\<close>

definition probe :: "board \<Rightarrow> int \<Rightarrow> int \<Rightarrow> mval \<Rightarrow> jserror + bool" where
  "probe b newX newY v =
     (if \<not> truthy v then Inr True
      else if \<not> (newX \<ge> 0) then Inr False
      else if \<not> (newX < int COLS) then Inr False
      else if \<not> (newY < int ROWS) then Inr False
      else (case js_row b newY of
              None \<Rightarrow> Inl TypeError
            | Some r \<Rightarrow> Inr (js_cell r newX = EMPTY)))"

definition isValidMove :: "board \<Rightarrow> int \<Rightarrow> int \<Rightarrow> mask \<Rightarrow> jserror + bool" where
  "isValidMove b x y m =
     js_every (\<lambda>row dy. js_every (\<lambda>v dx. probe b (x + int dx) (y + int dy) v) 0 row) 0 m"

subsection \<open>Line clearing (\<open>clearLines\<close>)\<close>

text \<open>The test of line 108; \<open>every\<close> skips holes, which satisfy the test anyway.\<close>

definition isRowFull :: "cell list \<Rightarrow> bool" where
  "isRowFull r = list_all (\<lambda>c. c \<noteq> EMPTY) r"

text \<open>Lines 109-110: \<open>board.splice(row, 1)\<close>, then \<open>board.unshift(new Array(COLS).fill(EMPTY))\<close>.\<close>

definition clearRow :: "board \<Rightarrow> nat \<Rightarrow> board" where
  "clearRow b row = replicate COLS EMPTY # (take row b @ drop (Suc row) b)"

text \<open>
  The loop \<open>for (row = ROWS - 1; row >= 0; row--)\<close>; the first argument is \<open>row + 1\<close>.
  After a cleared row the loop goes on with \<open>row - 1\<close>.
\<close>

fun clearLoop :: "nat \<Rightarrow> board \<Rightarrow> nat \<Rightarrow> jserror + (board \<times> nat)" where
  "clearLoop 0 b linesCleared = Inr (b, linesCleared)"
| "clearLoop (Suc row) b linesCleared =
     (if row < length b
      then (if isRowFull (b ! row)
            then clearLoop row (clearRow b row) (linesCleared + 1)
            else clearLoop row b linesCleared)
      else Inl TypeError)"

definition clearLines :: "board \<Rightarrow> int \<Rightarrow> jserror + (board \<times> int)" where
  "clearLines b sc =
     (case clearLoop ROWS b 0 of
        Inl e \<Rightarrow> Inl e
      | Inr (b', linesCleared) \<Rightarrow>
          Inr (b', if linesCleared > 0 then sc + int linesCleared * 10 else sc))"

subsection \<open>Merging the piece into the board (lines 91-97 of \<open>placePiece\<close>)\<close>

definition mergePiece :: "board \<Rightarrow> int \<Rightarrow> int \<Rightarrow> string \<Rightarrow> mask \<Rightarrow> jserror + board" where
  "mergePiece b x y col m =
     js_forEach (\<lambda>row dy b.
        js_forEach (\<lambda>v dx b.
           if truthy v then setCell b (y + int dy) (x + int dx) (Color col) else Inr b)
         0 row b)
       0 m b"

subsection \<open>The store of mask arrays\<close>

text \<open>
  The arrays of the masks are shared objects: a spawned piece's \<open>shape\<close> can be the very
  array of the catalog. They live in a store, split by element type: \<open>rows\<close> holds the
  arrays of numbers, \<open>mats\<close> the arrays of row references. \<open>nrows\<close> and \<open>nmats\<close> are the
  next unused addresses.
\<close>

record heap =
  rows :: "nat \<Rightarrow> mval list"
  mats :: "nat \<Rightarrow> nat list"
  nrows :: nat
  nmats :: nat

text \<open>An array literal, or the result array of \<open>map\<close>: a new object.\<close>

definition alloc_row :: "heap \<Rightarrow> mval list \<Rightarrow> heap \<times> nat" where
  "alloc_row h r = (h\<lparr>rows := (rows h)(nrows h := r), nrows := Suc (nrows h)\<rparr>, nrows h)"

definition alloc_mat :: "heap \<Rightarrow> nat list \<Rightarrow> heap \<times> nat" where
  "alloc_mat h rs = (h\<lparr>mats := (mats h)(nmats h := rs), nmats := Suc (nmats h)\<rparr>, nmats h)"

text \<open>\<open>Array.prototype.reverse\<close> reverses the array it is called on, in place.\<close>

definition reverse_row :: "heap \<Rightarrow> nat \<Rightarrow> heap" where
  "reverse_row h a = h\<lparr>rows := (rows h)(a := rev (rows h a))\<rparr>"

text \<open>The matrix that a reference to an outer array denotes.\<close>

definition mask_at :: "heap \<Rightarrow> nat \<Rightarrow> mask" where
  "mask_at h m = map (rows h) (mats h m)"

subsection \<open>The shape catalog (\<open>PIECES\<close>, lines 15-23)\<close>

text \<open>
  The first entry is a flat array of numbers, the six others are arrays of two rows.
  The catalog's thirteen number arrays are at row addresses 0..12, its six outer arrays at
  matrix addresses 0..5.
\<close>

datatype entry = Flat nat | Grid nat

definition heap0 :: heap where
  "heap0 =
     \<lparr>rows = (\<lambda>_. [])
        (0 := [Num 1, Num 1, Num 1, Num 1],
         1 := [Num 1, Num 1, Num 1], 2 := [Num 0, Num 1, Num 0],
         3 := [Num 1, Num 1], 4 := [Num 1, Num 1],
         5 := [Num 1, Num 1, Num 0], 6 := [Num 0, Num 1, Num 1],
         7 := [Num 0, Num 1, Num 1], 8 := [Num 1, Num 1, Num 0],
         9 := [Num 1, Num 0, Num 0], 10 := [Num 1, Num 1, Num 1],
         11 := [Num 0, Num 0, Num 1], 12 := [Num 1, Num 1, Num 1]),
      mats = (\<lambda>_. [])
        (0 := [1, 2], 1 := [3, 4], 2 := [5, 6], 3 := [7, 8], 4 := [9, 10], 5 := [11, 12]),
      nrows = 13,
      nmats = 6\<rparr>"

definition PIECES0 :: "entry list" where
  "PIECES0 = [Flat 0, Grid 0, Grid 1, Grid 2, Grid 3, Grid 4, Grid 5]"

text \<open>The value of a catalog entry: the numbers of a flat entry, the matrix of a grid.\<close>

fun entry_val :: "heap \<Rightarrow> entry \<Rightarrow> mval list + mask" where
  "entry_val h (Flat r) = Inl (rows h r)"
| "entry_val h (Grid m) = Inr (mask_at h m)"

subsection \<open>The game state\<close>

record piece =
  shape :: nat
  color :: string

record game =
  store :: heap
  PIECES :: "entry list"
  board :: board
  score :: int
  currentPiece :: piece
  currentX :: int
  currentY :: int
  alerts :: nat

definition shape_val :: "game \<Rightarrow> mask" where
  "shape_val s = mask_at (store s) (shape (currentPiece s))"

subsection \<open>Spawning (\<open>newPiece\<close>)\<close>

text \<open>\<open>Number.prototype.toString(16)\<close> on a natural number.\<close>

definition hexDigit :: "nat \<Rightarrow> char" where
  "hexDigit d = ''0123456789abcdef'' ! d"

fun toString16 :: "nat \<Rightarrow> string" where
  "toString16 n = (if n < 16 then [hexDigit n] else toString16 (n div 16) @ [hexDigit (n mod 16)])"

declare toString16.simps [simp del]

text \<open>
  \<open>k\<close> and \<open>c\<close> are the two numbers \<open>Math.floor(Math.random() * PIECES.length)\<close> and
  \<open>Math.floor(Math.random() * 16777215)\<close>. The test \<open>Array.isArray(randomPiece[0])\<close> holds
  for a grid with a first row, whose array then becomes the piece's \<open>shape\<close> itself;
  otherwise a new one-element array around \<open>randomPiece\<close> is built. (A grid without rows
  would be wrapped too; having no elements it is then an empty row, which the typed store
  keeps as a new empty row.)
\<close>

definition newPiece :: "game \<Rightarrow> nat \<Rightarrow> nat \<Rightarrow> jserror + game" where
  "newPiece s k c =
     (if k < length (PIECES s) then
        (let (h, sh) =
               (case PIECES s ! k of
                  Grid m \<Rightarrow>
                    if mats (store s) m \<noteq> [] then (store s, m)
                    else (let (h1, r) = alloc_row (store s) [] in alloc_mat h1 [r])
                | Flat r \<Rightarrow> alloc_mat (store s) [r])
         in Inr (s\<lparr>store := h,
                   currentPiece := \<lparr>shape = sh, color = CHR ''#'' # toString16 c\<rparr>,
                   currentX := int (COLS div 2) - int (length (rows h (hd (mats h sh))) div 2),
                   currentY := 0\<rparr>))
      else Inl TypeError)"

subsection \<open>Rotation (\<open>rotatePiece\<close>)\<close>

text \<open>
  The outer \<open>map\<close> runs its callback for \<open>i = 0, 1, ...\<close>; each run builds a new array
  with \<open>currentPiece.shape.map(row => row[i])\<close> and reverses that new array in place.
\<close>

fun rotate_cols :: "heap \<Rightarrow> nat \<Rightarrow> nat list \<Rightarrow> heap \<times> nat list" where
  "rotate_cols h sh [] = (h, [])"
| "rotate_cols h sh (i # is) =
     (let (h1, a) = alloc_row h (map (\<lambda>row. js_nth (rows h row) i) (mats h sh));
          h2 = reverse_row h1 a;
          (h3, as) = rotate_cols h2 sh is
      in (h3, a # as))"

text \<open>\<open>currentPiece.shape[0].map(...)\<close> raises when the shape has no first row.\<close>

definition rotated :: "heap \<Rightarrow> nat \<Rightarrow> jserror + (heap \<times> nat)" where
  "rotated h sh =
     (case mats h sh of
        [] \<Rightarrow> Inl TypeError
      | r0 # _ \<Rightarrow>
          (let (h1, as) = rotate_cols h sh [0..<length (rows h r0)]
           in Inr (alloc_mat h1 as)))"

definition rotatePiece :: "game \<Rightarrow> jserror + game" where
  "rotatePiece s =
     (case rotated (store s) (shape (currentPiece s)) of
        Inl e \<Rightarrow> Inl e
      | Inr (h, rot) \<Rightarrow>
          (case isValidMove (board s) (currentX s) (currentY s) (mask_at h rot) of
             Inl e \<Rightarrow> Inl e
           | Inr ok \<Rightarrow>
               Inr (if ok then s\<lparr>store := h, currentPiece := (currentPiece s)\<lparr>shape := rot\<rparr>\<rparr>
                    else s\<lparr>store := h\<rparr>)))"

subsection \<open>Moving, dropping, placing, game over\<close>

definition movePiece :: "game \<Rightarrow> int \<Rightarrow> jserror + game" where
  "movePiece s dx =
     (case isValidMove (board s) (currentX s + dx) (currentY s) (shape_val s) of
        Inl e \<Rightarrow> Inl e
      | Inr ok \<Rightarrow> Inr (if ok then s\<lparr>currentX := currentX s + dx\<rparr> else s))"

definition gameOver :: "game \<Rightarrow> game" where
  "gameOver s = s\<lparr>alerts := Suc (alerts s), board := createBoard [], score := 0\<rparr>"

definition placePiece :: "game \<Rightarrow> nat \<Rightarrow> nat \<Rightarrow> jserror + game" where
  "placePiece s k c =
     (case mergePiece (board s) (currentX s) (currentY s) (color (currentPiece s)) (shape_val s) of
        Inl e \<Rightarrow> Inl e
      | Inr b1 \<Rightarrow>
          (case clearLines b1 (score s) of
             Inl e \<Rightarrow> Inl e
           | Inr (b2, sc) \<Rightarrow>
               (case newPiece (s\<lparr>board := b2, score := sc\<rparr>) k c of
                  Inl e \<Rightarrow> Inl e
                | Inr s3 \<Rightarrow>
                    (case isValidMove (board s3) (currentX s3) (currentY s3) (shape_val s3) of
                       Inl e \<Rightarrow> Inl e
                     | Inr ok \<Rightarrow> Inr (if \<not> ok then gameOver s3 else s3)))))"

definition drop_piece :: "game \<Rightarrow> nat \<Rightarrow> nat \<Rightarrow> jserror + game" where
  "drop_piece s k c =
     (case isValidMove (board s) (currentX s) (currentY s + 1) (shape_val s) of
        Inl e \<Rightarrow> Inl e
      | Inr ok \<Rightarrow> if ok then Inr (s\<lparr>currentY := currentY s + 1\<rparr>) else placePiece s k c)"

subsection \<open>Start-up and events (lines 151-172)\<close>

text \<open>
  The state after \<open>createBoard()\<close> of line 170. \<open>currentPiece\<close>, \<open>currentX\<close> and
  \<open>currentY\<close> are still unassigned there; \<open>newPiece\<close> of line 171 assigns all three and
  reads none, so the values given to them here are never seen.
\<close>

definition game0 :: game where
  "game0 =
     \<lparr>store = heap0, PIECES = PIECES0, board = createBoard [], score = 0,
      currentPiece = \<lparr>shape = 0, color = []\<rparr>, currentX = 0, currentY = 0, alerts = 0\<rparr>"

text \<open>
  The four keys and the timer tick; an event that may place a piece carries the two
  random numbers a spawn would draw.
\<close>

datatype event = ArrowLeft | ArrowRight | ArrowDown nat nat | ArrowUp | Tick nat nat

fun handle :: "game \<Rightarrow> event \<Rightarrow> jserror + game" where
  "handle s ArrowLeft = movePiece s (- 1)"
| "handle s ArrowRight = movePiece s 1"
| "handle s (ArrowDown k c) = drop_piece s k c"
| "handle s ArrowUp = rotatePiece s"
| "handle s (Tick k c) = drop_piece s k c"

text \<open>The random numbers are below \<open>PIECES.length\<close> and below 16777215.\<close>

fun random_ok :: "game \<Rightarrow> event \<Rightarrow> bool" where
  "random_ok s (ArrowDown k c) = (k < length (PIECES s) \<and> c < 16777215)"
| "random_ok s (Tick k c) = (k < length (PIECES s) \<and> c < 16777215)"
| "random_ok s _ = True"

fun run :: "game \<Rightarrow> event list \<Rightarrow> jserror + game" where
  "run s [] = Inr s"
| "run s (ev # evs) = (case handle s ev of Inl e \<Rightarrow> Inl e | Inr s' \<Rightarrow> run s' evs)"

inductive reachable :: "game \<Rightarrow> bool" where
  start: "k < length (PIECES game0) \<Longrightarrow> c < 16777215 \<Longrightarrow> newPiece game0 k c = Inr s \<Longrightarrow> reachable s"
| step: "reachable s \<Longrightarrow> random_ok s ev \<Longrightarrow> handle s ev = Inr s' \<Longrightarrow> reachable s'"

section \<open>Predicates of the statements\<close>

text \<open>The cell at column \<open>X\<close>, row \<open>Y\<close> is on the board and empty.\<close>

definition cell_free :: "board \<Rightarrow> int \<Rightarrow> int \<Rightarrow> bool" where
  "cell_free b X Y =
     (0 \<le> X \<and> X < int COLS \<and> 0 \<le> Y \<and> Y < int ROWS \<and> js_cell (b ! nat Y) X = EMPTY)"

text \<open>Every occupied cell of the mask at offset \<open>(x, y)\<close> is on the board and empty.\<close>

definition fits :: "board \<Rightarrow> int \<Rightarrow> int \<Rightarrow> mask \<Rightarrow> bool" where
  "fits b x y m =
     (\<forall>dy<length m. \<forall>dx<length (m ! dy).
        truthy (m ! dy ! dx) \<longrightarrow> cell_free b (x + int dx) (y + int dy))"

text \<open>The board invariant: \<open>ROWS\<close> rows of \<open>COLS\<close> cells, each the empty marker or a colour.\<close>

definition board_ok :: "board \<Rightarrow> bool" where
  "board_ok b =
     (length b = ROWS \<and> list_all (\<lambda>r. length r = COLS \<and> list_all (\<lambda>c. c \<noteq> Hole) r) b)"

text \<open>
  The expression of lines 143-145 on the matrix the shape denotes, for a matrix with a first
  row (without one the script raises, as \<open>rotated\<close> does).
\<close>

definition rotate_mask :: "mask \<Rightarrow> mask" where
  "rotate_mask m = map (\<lambda>i. rev (map (\<lambda>row. js_nth row i) m)) [0..<length (hd m)]"

text \<open>Every row reference held by an allocated outer array is allocated.\<close>

definition heap_ok :: "heap \<Rightarrow> bool" where
  "heap_ok h = (\<forall>m<nmats h. \<forall>r\<in>set (mats h m). r < nrows h)"

text \<open>\<open>h'\<close> has every array of \<open>h\<close>, unchanged, and possibly new ones.\<close>

definition heap_extends :: "heap \<Rightarrow> heap \<Rightarrow> bool" where
  "heap_extends h h' =
     (nrows h \<le> nrows h' \<and> nmats h \<le> nmats h'
      \<and> (\<forall>a<nrows h. rows h' a = rows h a) \<and> (\<forall>m<nmats h. mats h' m = mats h m))"

text \<open>The seven masks as a spawned piece holds them (the flat first entry wrapped).\<close>

definition SHAPES :: "mask list" where
  "SHAPES =
     [[[Num 1, Num 1, Num 1, Num 1]],
      [[Num 1, Num 1, Num 1], [Num 0, Num 1, Num 0]],
      [[Num 1, Num 1], [Num 1, Num 1]],
      [[Num 1, Num 1, Num 0], [Num 0, Num 1, Num 1]],
      [[Num 0, Num 1, Num 1], [Num 1, Num 1, Num 0]],
      [[Num 1, Num 0, Num 0], [Num 1, Num 1, Num 1]],
      [[Num 0, Num 0, Num 1], [Num 1, Num 1, Num 1]]]"

text \<open>The column \<open>newPiece\<close> gives a piece with mask \<open>m\<close>.\<close>

definition spawnX :: "mask \<Rightarrow> int" where
  "spawnX m = int (COLS div 2) - int (length (hd m) div 2)"

text \<open>
  The invariant of the running game: the board invariant, the piece at a position where it
  fits, a mask with a first row and a first column, and a store that still holds the
  catalog.
\<close>

definition game_inv :: "game \<Rightarrow> bool" where
  "game_inv s =
     (board_ok (board s) \<and> 0 \<le> currentY s
      \<and> fits (board s) (currentX s) (currentY s) (shape_val s)
      \<and> shape_val s \<noteq> [] \<and> hd (shape_val s) \<noteq> []
      \<and> shape (currentPiece s) < nmats (store s) \<and> heap_ok (store s)
      \<and> PIECES s = PIECES0 \<and> heap_extends heap0 (store s))"

text \<open>The guard under which the callback of \<open>isValidMove\<close> reaches \<open>board[newY][newX]\<close>.\<close>

definition looks_up :: "int \<Rightarrow> int \<Rightarrow> mval \<Rightarrow> bool" where
  "looks_up X Y v = (truthy v \<and> 0 \<le> X \<and> X < int COLS \<and> Y < int ROWS)"

text \<open>A matrix of \<open>R\<close> rows of \<open>n\<close> elements each.\<close>

definition rect :: "nat \<Rightarrow> nat \<Rightarrow> mask \<Rightarrow> bool" where
  "rect R n m = (length m = R \<and> list_all (\<lambda>r. length r = n) m)"

subsection \<open>Example inputs\<close>

text \<open>The game after line 171, with \<open>k\<close> and \<open>c\<close> as the spawn's random numbers.\<close>

definition start_game :: "nat \<Rightarrow> nat \<Rightarrow> game" where
  "start_game k c = (case newPiece game0 k c of Inr s \<Rightarrow> s | Inl e \<Rightarrow> game0)"

text \<open>
  A board after an upright I piece has been merged into column 9 of rows 16-19, the
  columns 0-8 of row 19 having been filled before: row 19 is the only full row.
\<close>

definition one_full_board :: board where
  "one_full_board =
     replicate 16 (replicate 10 EMPTY)
     @ replicate 3 (replicate 9 EMPTY @ [Color ''#1f'']) @ [replicate 10 (Color ''#1f'')]"

text \<open>
  Keys and ticks that bring four O pieces to rest side by side on the floor, in the
  columns 0-7 of rows 18 and 19, and a fifth O piece down to rows 18 and 19 of the columns 8
  and 9, not yet placed.
\<close>

definition two_full_events :: "event list" where
  "two_full_events =
     replicate 4 ArrowLeft @ replicate 19 (Tick 2 255)
     @ replicate 2 ArrowLeft @ replicate 19 (Tick 2 255)
     @ replicate 19 (Tick 2 255)
     @ replicate 2 ArrowRight @ replicate 19 (Tick 2 255)
     @ replicate 4 ArrowRight @ replicate 18 (Tick 2 255)"

text \<open>The state a list of events leads to from the start.\<close>

definition state_after :: "nat \<Rightarrow> nat \<Rightarrow> event list \<Rightarrow> game" where
  "state_after k c evs = (case run (start_game k c) evs of Inr s \<Rightarrow> s | Inl e \<Rightarrow> game0)"



definition tower_merged :: board where
  "tower_merged =
     replicate 2 (replicate 4 EMPTY @ replicate 2 (Color ''#ff'') @ replicate 4 EMPTY)
     @ replicate 18 (replicate 4 EMPTY @ [Color ''#1f''] @ replicate 5 EMPTY)"

text \<open>
  An I piece moved to the right wall and dropped to row 18: it can neither move right nor
  turn. A T piece turned once at its spawn position.
\<close>

definition wall_state :: game where
  "wall_state = state_after 0 255 (replicate 3 ArrowRight @ replicate 18 (Tick 0 255))"

definition turned_state :: game where
  "turned_state = state_after 1 255 [ArrowUp]"

section \<open>Board creation and line clearing\<close>

lemma fold_store_row: "fold (\<lambda>col r. js_store r (int col) EMPTY) [0..<n] [] = replicate n EMPTY"
  by (induction n) (simp_all add: js_store_def replicate_append_same)

lemma fold_set_row: "fold (\<lambda>row b. set_row b row r) [0..<n] [] = replicate n r"
  by (induction n) (simp_all add: set_row_def replicate_append_same)

lemma createBoard_Nil: "createBoard [] = replicate ROWS (replicate COLS EMPTY)"
  by (simp add: createBoard_def fold_store_row fold_set_row)

lemma empty_row_not_full: "\<not> isRowFull (replicate COLS EMPTY)"
  by (simp add: isRowFull_def COLS_def list_all_iff)

lemma board_ok_createBoard: "board_ok (createBoard [])"
  by (simp add: createBoard_Nil board_ok_def list_all_iff)

lemma clearRow_length: "row < length b \<Longrightarrow> length (clearRow b row) = length b"
  by (simp add: clearRow_def)

lemma clearRow_nth:
  "row < length b \<Longrightarrow> i < length b \<Longrightarrow>
   clearRow b row ! i = (if i = 0 then replicate COLS EMPTY else if i \<le> row then b ! (i - 1) else b ! i)"
  by (cases i) (auto simp: clearRow_def nth_append min_def)

lemma clearLoop_none:
  "n \<le> length b \<Longrightarrow> \<forall>i<n. \<not> isRowFull (b ! i) \<Longrightarrow> clearLoop n b lc = Inr (b, lc)"
  by (induction n) simp_all

lemma clearLoop_one:
  assumes "row < n" "n \<le> length b" "isRowFull (b ! row)"
    and "\<forall>i<n. i \<noteq> row \<longrightarrow> \<not> isRowFull (b ! i)"
  shows "clearLoop n b lc = Inr (clearRow b row, Suc lc)"
  using assms
proof (induction n)
  case 0
  then show ?case by simp
next
  case (Suc n)
  show ?case
  proof (cases "n = row")
    case True
    have "\<forall>i<row. \<not> isRowFull (clearRow b row ! i)"
      using Suc.prems True by (auto simp: clearRow_nth empty_row_not_full)
    then have "clearLoop row (clearRow b row) (Suc lc) = Inr (clearRow b row, Suc lc)"
      using Suc.prems True by (intro clearLoop_none) (simp_all add: clearRow_length)
    then show ?thesis using Suc.prems True by simp
  next
    case False
    then show ?thesis using Suc by simp
  qed
qed

lemma board_ok_clearRow: "board_ok b \<Longrightarrow> row < ROWS \<Longrightarrow> board_ok (clearRow b row)"
  by (auto simp: board_ok_def clearRow_def list_all_iff dest: in_set_takeD in_set_dropD)

lemma clearLoop_ok:
  "board_ok b \<Longrightarrow> n \<le> ROWS \<Longrightarrow> \<exists>b' lc'. clearLoop n b lc = Inr (b', lc') \<and> board_ok b'"
proof (induction n arbitrary: b lc)
  case 0
  then show ?case by simp
next
  case (Suc n)
  then have len: "n < length b" by (simp add: board_ok_def)
  show ?case
  proof (cases "isRowFull (b ! n)")
    case True
    have "board_ok (clearRow b n)" using Suc.prems by (simp add: board_ok_clearRow)
    from Suc.IH [OF this, of "lc + 1"] Suc.prems len True show ?thesis by simp
  next
    case False
    from Suc.IH [OF Suc.prems(1), of lc] Suc.prems len False show ?thesis by simp
  qed
qed

lemma clearLines_ok:
  "board_ok b \<Longrightarrow> \<exists>b' sc'. clearLines b sc = Inr (b', sc') \<and> board_ok b'"
  using clearLoop_ok [of b ROWS 0] by (auto simp: clearLines_def)

section \<open>Move validation\<close>

lemma js_every_Inr:
  "(\<And>j. j < length xs \<Longrightarrow> f (xs ! j) (i + j) = Inr (P j)) \<Longrightarrow>
   js_every f i xs = Inr (\<forall>j<length xs. P j)"
proof (induction xs arbitrary: i P)
  case Nil
  then show ?case by simp
next
  case (Cons v vs)
  have h0: "f v i = Inr (P 0)" using Cons.prems [of 0] by simp
  have "js_every f (Suc i) vs = Inr (\<forall>j<length vs. P (Suc j))"
    by (rule Cons.IH) (use Cons.prems [of "Suc _"] in simp)
  then show ?case using h0 by (auto simp: less_Suc_eq_0_disj)
qed

lemma js_every_TrueD:
  "js_every f i xs = Inr True \<Longrightarrow> j < length xs \<Longrightarrow> f (xs ! j) (i + j) = Inr True"
proof (induction xs arbitrary: i j)
  case Nil
  then show ?case by simp
next
  case (Cons v vs)
  from Cons.prems(1) have hd: "f v i = Inr True" and tl: "js_every f (Suc i) vs = Inr True"
    by (auto split: sum.splits if_splits)
  show ?case
  proof (cases j)
    case 0
    then show ?thesis using hd by simp
  next
    case (Suc k)
    then show ?thesis using Cons.IH [OF tl, of k] Cons.prems(2) by simp
  qed
qed

lemma probe_free:
  "length b = ROWS \<Longrightarrow> 0 \<le> Y \<Longrightarrow> probe b X Y v = Inr (truthy v \<longrightarrow> cell_free b X Y)"
  by (auto simp: probe_def cell_free_def js_row_def)

lemma isValidMove_fits:
  assumes "length b = ROWS" "0 \<le> y"
  shows "isValidMove b x y m = Inr (fits b x y m)"
  unfolding isValidMove_def fits_def
  by (rule js_every_Inr, simp, rule js_every_Inr) (use assms in \<open>simp add: probe_free\<close>)

lemma probe_True_bounds:
  "probe b X Y v = Inr True \<Longrightarrow> truthy v \<Longrightarrow> 0 \<le> X \<and> X < int COLS \<and> Y < int ROWS"
  by (auto simp: probe_def split: if_splits)

lemma isValidMove_True_bounds:
  assumes "isValidMove b x y m = Inr True" "dy < length m" "dx < length (m ! dy)" "truthy (m ! dy ! dx)"
  shows "0 \<le> x + int dx \<and> x + int dx < int COLS \<and> y + int dy < int ROWS"
proof -
  have "js_every (\<lambda>v dx. probe b (x + int dx) (y + int dy) v) 0 (m ! dy) = Inr True"
    using js_every_TrueD [OF assms(1) [unfolded isValidMove_def] assms(2)] by simp
  from js_every_TrueD [OF this assms(3)] have "probe b (x + int dx) (y + int dy) (m ! dy ! dx) = Inr True"
    by simp
  from probe_True_bounds [OF this assms(4)] show ?thesis .
qed


section \<open>The store: rotation allocates, and changes no existing array\<close>

lemma heap_extends_refl: "heap_extends h h"
  by (simp add: heap_extends_def)

lemma heap_extends_trans: "heap_extends h1 h2 \<Longrightarrow> heap_extends h2 h3 \<Longrightarrow> heap_extends h1 h3"
  by (auto simp: heap_extends_def)

lemma mask_at_extends:
  "heap_extends h h' \<Longrightarrow> heap_ok h \<Longrightarrow> m < nmats h \<Longrightarrow> mask_at h' m = mask_at h m"
  by (auto simp: heap_extends_def heap_ok_def mask_at_def)

lemma rotate_cols_frame:
  assumes "\<forall>r\<in>set (mats h sh). r < nrows h" "rotate_cols h sh is = (h', as)"
  shows "map (rows h') as = map (\<lambda>i. rev (map (\<lambda>row. js_nth (rows h row) i) (mats h sh))) is
         \<and> as = [nrows h..<nrows h + length is]
         \<and> nrows h' = nrows h + length is \<and> nmats h' = nmats h \<and> mats h' = mats h
         \<and> (\<forall>a<nrows h. rows h' a = rows h a)"
  using assms
proof (induction "is" arbitrary: h as h')
  case Nil
  then show ?case by simp
next
  case (Cons i "is")
  define h2 where "h2 = reverse_row (fst (alloc_row h (map (\<lambda>row. js_nth (rows h row) i) (mats h sh)))) (nrows h)"
  obtain h3 as' where rec: "rotate_cols h2 sh is = (h3, as')" by (cases "rotate_cols h2 sh is")
  have h2_rows: "rows h2 = (rows h)(nrows h := rev (map (\<lambda>row. js_nth (rows h row) i) (mats h sh)))"
    and h2_rest: "mats h2 = mats h" "nrows h2 = Suc (nrows h)" "nmats h2 = nmats h"
    by (simp_all add: h2_def alloc_row_def reverse_row_def)
  have res: "h' = h3" "as = nrows h # as'"
    using Cons.prems(2) rec by (simp_all add: alloc_row_def h2_def Let_def)
  have pre2: "\<forall>r\<in>set (mats h2 sh). r < nrows h2"
    using Cons.prems(1) h2_rest by auto
  note IH = Cons.IH [OF pre2 rec]
  have IH_as0: "as' = [nrows h2..<nrows h2 + length is]"
    and IH_n0: "nrows h3 = nrows h2 + length is" "nmats h3 = nmats h2" "mats h3 = mats h2"
    and IH_old0: "\<forall>a<nrows h2. rows h3 a = rows h2 a"
    and IH_val: "map (rows h3) as' = map (\<lambda>i. rev (map (\<lambda>row. js_nth (rows h2 row) i) (mats h2 sh))) is"
    using IH by blast+
  have IH_as: "as' = [Suc (nrows h)..<Suc (nrows h) + length is]"
    using IH_as0 unfolding h2_rest .
  have IH_n: "nrows h3 = Suc (nrows h) + length is" "nmats h3 = nmats h" "mats h3 = mats h"
    using IH_n0 unfolding h2_rest .
  have IH_old: "\<forall>a<Suc (nrows h). rows h3 a = rows h2 a"
    using IH_old0 unfolding h2_rest .
  have same: "\<And>row. row \<in> set (mats h sh) \<Longrightarrow> rows h2 row = rows h row"
    using Cons.prems(1) h2_rows by auto
  have old: "\<forall>a<nrows h. rows h3 a = rows h a"
    using IH_old h2_rows by auto
  have new: "rows h3 (nrows h) = rev (map (\<lambda>row. js_nth (rows h row) i) (mats h sh))"
    using IH_old h2_rows by auto
  have tl: "map (rows h3) as' = map (\<lambda>i. rev (map (\<lambda>row. js_nth (rows h row) i) (mats h sh))) is"
    unfolding IH_val using h2_rest same by (auto cong: map_cong)
  have upt: "[nrows h..<nrows h + length (i # is)] = nrows h # [Suc (nrows h)..<Suc (nrows h) + length is]"
    by (simp add: upt_conv_Cons del: upt_Suc)
  have c1: "map (rows h') as = map (\<lambda>i. rev (map (\<lambda>row. js_nth (rows h row) i) (mats h sh))) (i # is)"
    using res new tl by simp
  have c2: "as = [nrows h..<nrows h + length (i # is)]"
    unfolding upt using res IH_as by simp
  have c3: "nrows h' = nrows h + length (i # is)" "nmats h' = nmats h" "mats h' = mats h"
    using res IH_n by simp_all
  have c4: "\<forall>a<nrows h. rows h' a = rows h a"
    using res old by simp
  show ?case using c1 c2 c3 c4 by blast
qed

lemma rotated_frame:
  assumes "heap_ok h" "sh < nmats h" "mask_at h sh \<noteq> []"
  shows "\<exists>h'. rotated h sh = Inr (h', nmats h)
           \<and> mask_at h' (nmats h) = rotate_mask (mask_at h sh)
           \<and> heap_extends h h' \<and> heap_ok h' \<and> nmats h' = Suc (nmats h)
           \<and> (\<forall>r\<in>set (mats h' (nmats h)). nrows h \<le> r)"
proof -
  from assms(3) obtain r0 rest where m: "mats h sh = r0 # rest"
    by (cases "mats h sh") (auto simp: mask_at_def)
  have pre: "\<forall>r\<in>set (mats h sh). r < nrows h"
    using assms(1,2) by (simp add: heap_ok_def)
  obtain h1 as where rc: "rotate_cols h sh [0..<length (rows h r0)] = (h1, as)"
    by (cases "rotate_cols h sh [0..<length (rows h r0)]")
  note fr = rotate_cols_frame [OF pre rc]
  define h' where "h' = fst (alloc_mat h1 as)"
  have rot: "rotated h sh = Inr (h', nmats h)"
    using m rc fr by (simp add: rotated_def h'_def alloc_mat_def)
  have h': "rows h' = rows h1" "mats h' = (mats h)(nmats h := as)" "nrows h' = nrows h1"
    "nmats h' = Suc (nmats h)"
    using fr by (simp_all add: h'_def alloc_mat_def)
  have hdm: "length (hd (mask_at h sh)) = length (rows h r0)"
    using m by (simp add: mask_at_def)
  have "mask_at h' (nmats h) = map (rows h1) as"
    using h' by (simp add: mask_at_def)
  also have "\<dots> = map (\<lambda>i. rev (map (\<lambda>row. js_nth (rows h row) i) (mats h sh))) [0..<length (rows h r0)]"
    using fr by blast
  also have "\<dots> = rotate_mask (mask_at h sh)"
    unfolding rotate_mask_def hdm by (simp add: mask_at_def comp_def)
  finally have val: "mask_at h' (nmats h) = rotate_mask (mask_at h sh)" .
  have ext: "heap_extends h h'"
    using fr h' by (simp add: heap_extends_def)
  have ok: "heap_ok h'"
    unfolding heap_ok_def
  proof (intro allI impI ballI)
    fix m r
    assume m: "m < nmats h'" and r: "r \<in> set (mats h' m)"
    show "r < nrows h'"
    proof (cases "m = nmats h")
      case True
      then show ?thesis using r fr h' by auto
    next
      case False
      then have "m < nmats h" using m h' by simp
      moreover from this False r h' have "r \<in> set (mats h m)" by simp
      ultimately have "r < nrows h" using assms(1) by (simp add: heap_ok_def)
      then show ?thesis using fr h' by simp
    qed
  qed
  have fresh: "\<forall>r\<in>set (mats h' (nmats h)). nrows h \<le> r"
    using fr h' by auto
  show ?thesis using rot val ext ok h' fresh by blast
qed


section \<open>Merging a piece keeps the board invariant\<close>

lemma js_forEach_inv:
  assumes "\<And>j s. j < length xs \<Longrightarrow> P s \<Longrightarrow> \<exists>s'. f (xs ! j) (i + j) s = Inr s' \<and> P s'" "P s"
  shows "\<exists>s'. js_forEach f i xs s = Inr s' \<and> P s'"
  using assms
proof (induction xs arbitrary: i s)
  case Nil
  then show ?case by simp
next
  case (Cons v vs)
  from Cons.prems(1) [of 0 s] Cons.prems(2) obtain s1 where s1: "f v i s = Inr s1" "P s1"
    by auto
  have "\<exists>s'. js_forEach f (Suc i) vs s1 = Inr s' \<and> P s'"
  proof (rule Cons.IH)
    fix j t assume "j < length vs" "P t"
    with Cons.prems(1) [of "Suc j" t] show "\<exists>s'. f (vs ! j) (Suc i + j) t = Inr s' \<and> P s'"
      by simp
  qed (rule s1)
  then show ?case using s1 by simp
qed

lemma js_forEach_inv0:
  assumes "\<And>j s. j < length xs \<Longrightarrow> P s \<Longrightarrow> \<exists>s'. f (xs ! j) j s = Inr s' \<and> P s'" "P s"
  shows "\<exists>s'. js_forEach f 0 xs s = Inr s' \<and> P s'"
  using js_forEach_inv [of xs P f 0 s] assms by simp

lemma row_ok_update:
  assumes "length r = COLS \<and> (\<forall>c\<in>set r. c \<noteq> Hole)" "v \<noteq> Hole"
  shows "length (r[j := v]) = COLS \<and> (\<forall>c\<in>set (r[j := v]). c \<noteq> Hole)"
  using assms set_update_subset_insert [of r j v] by auto

lemma board_ok_update:
  assumes "board_ok b" "i < ROWS" "v \<noteq> Hole"
  shows "board_ok (b[i := (b ! i)[j := v]])"
proof -
  have rows: "\<forall>r\<in>set b. length r = COLS \<and> (\<forall>c\<in>set r. c \<noteq> Hole)" and len: "length b = ROWS"
    using assms(1) by (simp_all add: board_ok_def list_all_iff)
  have "b ! i \<in> set b" using assms(2) len by simp
  with rows have "length (b ! i) = COLS \<and> (\<forall>c\<in>set (b ! i). c \<noteq> Hole)" by blast
  from row_ok_update [OF this assms(3)]
  have new: "length ((b ! i)[j := v]) = COLS \<and> (\<forall>c\<in>set ((b ! i)[j := v]). c \<noteq> Hole)" .
  have "\<forall>r\<in>set (b[i := (b ! i)[j := v]]). length r = COLS \<and> (\<forall>c\<in>set r. c \<noteq> Hole)"
  proof
    fix r assume "r \<in> set (b[i := (b ! i)[j := v]])"
    then have "r = (b ! i)[j := v] \<or> r \<in> set b"
      using set_update_subset_insert [of b i "(b ! i)[j := v]"] by auto
    then show "length r = COLS \<and> (\<forall>c\<in>set r. c \<noteq> Hole)"
      using new rows by blast
  qed
  then show ?thesis using len by (simp add: board_ok_def list_all_iff)
qed

lemma setCell_ok:
  assumes "board_ok b" "0 \<le> Y" "Y < int ROWS" "0 \<le> X" "X < int COLS"
  shows "\<exists>b'. setCell b Y X (Color c) = Inr b' \<and> board_ok b'"
proof -
  have nY: "nat Y < ROWS" and nX: "nat X < COLS" using assms by auto
  have len: "length b = ROWS" using assms(1) by (simp add: board_ok_def)
  then have "b ! nat Y \<in> set b" using nY by simp
  then have lenr: "length (b ! nat Y) = COLS"
    using assms(1) by (auto simp: board_ok_def list_all_iff)
  have "js_row b Y = Some (b ! nat Y)"
    using assms(2,3) len by (simp add: js_row_def)
  moreover have "js_store (b ! nat Y) X (Color c) = (b ! nat Y)[nat X := Color c]"
    using assms(4) nX lenr by (simp add: js_store_def)
  ultimately have "setCell b Y X (Color c) = Inr (b[nat Y := (b ! nat Y)[nat X := Color c]])"
    by (simp add: setCell_def)
  moreover have "board_ok (b[nat Y := (b ! nat Y)[nat X := Color c]])"
    using assms(1) nY by (intro board_ok_update) auto
  ultimately show ?thesis by simp
qed

lemma fits_bounds:
  "fits b x y m \<Longrightarrow> dy < length m \<Longrightarrow> dx < length (m ! dy) \<Longrightarrow> truthy (m ! dy ! dx) \<Longrightarrow>
   0 \<le> x + int dx \<and> x + int dx < int COLS \<and> 0 \<le> y + int dy \<and> y + int dy < int ROWS"
  by (simp add: fits_def cell_free_def)

lemma mergePiece_ok:
  assumes "board_ok b" "fits b0 x y m"
  shows "\<exists>b'. mergePiece b x y col m = Inr b' \<and> board_ok b'"
  unfolding mergePiece_def
proof (rule js_forEach_inv0 [where P = board_ok])
  fix dy b1 assume dy: "dy < length m" and b1: "board_ok b1"
  show "\<exists>s'. js_forEach (\<lambda>v dx b. if truthy v then setCell b (y + int dy) (x + int dx) (Color col) else Inr b)
          0 (m ! dy) b1 = Inr s' \<and> board_ok s'"
  proof (rule js_forEach_inv0 [where P = board_ok])
    fix dx b2 assume dx: "dx < length (m ! dy)" and b2: "board_ok b2"
    show "\<exists>s'. (if truthy (m ! dy ! dx) then setCell b2 (y + int dy) (x + int dx) (Color col) else Inr b2) = Inr s' \<and> board_ok s'"
      using fits_bounds [OF assms(2) dy dx] setCell_ok [OF b2, of "y + int dy" "x + int dx" col] b2
      by (cases "truthy (m ! dy ! dx)") simp_all
  qed (rule b1)
qed (rule assms(1))

lemma probe_looks_up:
  "probe b X Y v =
     (if looks_up X Y v
      then (case js_row b Y of None \<Rightarrow> Inl TypeError | Some r \<Rightarrow> Inr (js_cell r X = EMPTY))
      else Inr (\<not> truthy v))"
  by (auto simp: probe_def looks_up_def)

section \<open>Spawning from the catalog\<close>

lemma catalog_arrays:
  assumes "heap_extends heap0 h"
  shows "rows h 0 = [Num 1, Num 1, Num 1, Num 1]"
    "rows h 1 = [Num 1, Num 1, Num 1]" "rows h 2 = [Num 0, Num 1, Num 0]"
    "rows h 3 = [Num 1, Num 1]" "rows h 4 = [Num 1, Num 1]"
    "rows h 5 = [Num 1, Num 1, Num 0]" "rows h 6 = [Num 0, Num 1, Num 1]"
    "rows h 7 = [Num 0, Num 1, Num 1]" "rows h 8 = [Num 1, Num 1, Num 0]"
    "rows h 9 = [Num 1, Num 0, Num 0]" "rows h 10 = [Num 1, Num 1, Num 1]"
    "rows h 11 = [Num 0, Num 0, Num 1]" "rows h 12 = [Num 1, Num 1, Num 1]"
    "mats h 0 = [1, 2]" "mats h 1 = [3, 4]" "mats h 2 = [5, 6]"
    "mats h 3 = [7, 8]" "mats h 4 = [9, 10]" "mats h 5 = [11, 12]"
    "13 \<le> nrows h" "6 \<le> nmats h"
proof -
  have r: "\<And>a. a < 13 \<Longrightarrow> rows h a = rows heap0 a" and m: "\<And>a. a < 6 \<Longrightarrow> mats h a = mats heap0 a"
    and n: "13 \<le> nrows h" "6 \<le> nmats h"
    using assms by (simp_all add: heap_extends_def heap0_def)
  show "rows h 0 = [Num 1, Num 1, Num 1, Num 1]" using r [of 0] by (simp add: heap0_def)
  show "rows h 1 = [Num 1, Num 1, Num 1]" using r [of 1] by (simp add: heap0_def)
  show "rows h 2 = [Num 0, Num 1, Num 0]" using r [of 2] by (simp add: heap0_def)
  show "rows h 3 = [Num 1, Num 1]" using r [of 3] by (simp add: heap0_def)
  show "rows h 4 = [Num 1, Num 1]" using r [of 4] by (simp add: heap0_def)
  show "rows h 5 = [Num 1, Num 1, Num 0]" using r [of 5] by (simp add: heap0_def)
  show "rows h 6 = [Num 0, Num 1, Num 1]" using r [of 6] by (simp add: heap0_def)
  show "rows h 7 = [Num 0, Num 1, Num 1]" using r [of 7] by (simp add: heap0_def)
  show "rows h 8 = [Num 1, Num 1, Num 0]" using r [of 8] by (simp add: heap0_def)
  show "rows h 9 = [Num 1, Num 0, Num 0]" using r [of 9] by (simp add: heap0_def)
  show "rows h 10 = [Num 1, Num 1, Num 1]" using r [of 10] by (simp add: heap0_def)
  show "rows h 11 = [Num 0, Num 0, Num 1]" using r [of 11] by (simp add: heap0_def)
  show "rows h 12 = [Num 1, Num 1, Num 1]" using r [of 12] by (simp add: heap0_def)
  show "mats h 0 = [1, 2]" using m [of 0] by (simp add: heap0_def)
  show "mats h 1 = [3, 4]" using m [of 1] by (simp add: heap0_def)
  show "mats h 2 = [5, 6]" using m [of 2] by (simp add: heap0_def)
  show "mats h 3 = [7, 8]" using m [of 3] by (simp add: heap0_def)
  show "mats h 4 = [9, 10]" using m [of 4] by (simp add: heap0_def)
  show "mats h 5 = [11, 12]" using m [of 5] by (simp add: heap0_def)
  show "13 \<le> nrows h" "6 \<le> nmats h" using n .
qed

lemma heap_ok_heap0: "heap_ok heap0"
proof -
  have "\<And>m. m < 6 \<Longrightarrow> m = 0 \<or> m = 1 \<or> m = 2 \<or> m = 3 \<or> m = 4 \<or> m = (5::nat)" by arith
  then show ?thesis by (auto simp: heap_ok_def heap0_def)
qed

lemma spawn_fits_empty:
  "k < 7 \<Longrightarrow> fits (createBoard []) (spawnX (SHAPES ! k)) 0 (SHAPES ! k)"
proof -
  have v: "list_all (\<lambda>m. isValidMove (createBoard []) (spawnX m) 0 m = Inr True) SHAPES"
    by code_simp
  assume "k < 7"
  moreover have "length SHAPES = 7" by (simp add: SHAPES_def)
  ultimately have "SHAPES ! k \<in> set SHAPES" by (metis nth_mem)
  with v have "isValidMove (createBoard []) (spawnX (SHAPES ! k)) 0 (SHAPES ! k) = Inr True"
    by (simp add: list_all_iff)
  then show ?thesis
    using isValidMove_fits [of "createBoard []" 0 "spawnX (SHAPES ! k)" "SHAPES ! k"]
    by (simp add: createBoard_Nil)
qed

lemma SHAPES_nonempty: "k < 7 \<Longrightarrow> SHAPES ! k \<noteq> [] \<and> hd (SHAPES ! k) \<noteq> []"
proof -
  have v: "list_all (\<lambda>m. m \<noteq> [] \<and> hd m \<noteq> []) SHAPES" by (simp add: SHAPES_def)
  assume "k < 7"
  moreover have "length SHAPES = 7" by (simp add: SHAPES_def)
  ultimately have "SHAPES ! k \<in> set SHAPES" by (metis nth_mem)
  with v show ?thesis by (simp add: list_all_iff)
qed

lemma newPiece_spawn:
  assumes "PIECES s = PIECES0" "heap_extends heap0 (store s)" "heap_ok (store s)" "k < 7"
  shows "\<exists>s'. newPiece s k c = Inr s'
     \<and> board s' = board s \<and> score s' = score s \<and> alerts s' = alerts s \<and> PIECES s' = PIECES s
     \<and> currentY s' = 0 \<and> currentX s' = spawnX (SHAPES ! k) \<and> shape_val s' = SHAPES ! k
     \<and> color (currentPiece s') = CHR ''#'' # toString16 c
     \<and> heap_extends (store s) (store s') \<and> heap_ok (store s')
     \<and> shape (currentPiece s') < nmats (store s')
     \<and> (0 < k \<longrightarrow> store s' = store s \<and> shape (currentPiece s') = k - 1)
     \<and> (k = 0 \<longrightarrow> shape (currentPiece s') = nmats (store s) \<and> mats (store s') (nmats (store s)) = [0])"
proof -
  note cat = catalog_arrays [OF assms(2)]
  from assms(4) consider "k = 0" | "k = 1" | "k = 2" | "k = 3" | "k = 4" | "k = 5" | "k = 6"
    by arith
  then show ?thesis
  proof cases
    case 1
    have "heap_ok (fst (alloc_mat (store s) [0]))"
      using assms(3) cat(20) by (auto simp: heap_ok_def alloc_mat_def less_Suc_eq)
    then show ?thesis
      using 1 assms(1) cat
      by (simp add: newPiece_def PIECES0_def alloc_mat_def shape_val_def mask_at_def SHAPES_def
          spawnX_def heap_extends_def)
  next
    case 2
    then show ?thesis
      using assms(1,3) cat
      by (simp add: newPiece_def PIECES0_def shape_val_def mask_at_def SHAPES_def spawnX_def heap_extends_refl)
  next
    case 3
    then show ?thesis
      using assms(1,3) cat
      by (simp add: newPiece_def PIECES0_def shape_val_def mask_at_def SHAPES_def spawnX_def heap_extends_refl)
  next
    case 4
    then show ?thesis
      using assms(1,3) cat
      by (simp add: newPiece_def PIECES0_def shape_val_def mask_at_def SHAPES_def spawnX_def heap_extends_refl)
  next
    case 5
    then show ?thesis
      using assms(1,3) cat
      by (simp add: newPiece_def PIECES0_def shape_val_def mask_at_def SHAPES_def spawnX_def heap_extends_refl)
  next
    case 6
    then show ?thesis
      using assms(1,3) cat
      by (simp add: newPiece_def PIECES0_def shape_val_def mask_at_def SHAPES_def spawnX_def heap_extends_refl)
  next
    case 7
    then show ?thesis
      using assms(1,3) cat
      by (simp add: newPiece_def PIECES0_def shape_val_def mask_at_def SHAPES_def spawnX_def heap_extends_refl)
  qed
qed


section \<open>The invariant of the running game\<close>

lemma rotate_mask_nonempty:
  assumes "m \<noteq> []" "hd m \<noteq> []"
  shows "rotate_mask m \<noteq> [] \<and> hd (rotate_mask m) \<noteq> []"
proof -
  from assms(2) obtain n where n: "length (hd m) = Suc n" by (cases "hd m") auto
  have "rotate_mask m = rev (map (\<lambda>row. js_nth row 0) m) # map (\<lambda>i. rev (map (\<lambda>row. js_nth row i) m)) [Suc 0..<Suc n]"
    unfolding rotate_mask_def n by (simp add: upt_conv_Cons del: upt_Suc)
  then show ?thesis using assms(1) by simp
qed

lemma inv_isValidMove:
  "game_inv s \<Longrightarrow> 0 \<le> y \<Longrightarrow> isValidMove (board s) x y m = Inr (fits (board s) x y m)"
  by (rule isValidMove_fits) (simp_all add: game_inv_def board_ok_def)

lemma movePiece_inv:
  assumes "game_inv s"
  shows "\<exists>s'. movePiece s d = Inr s' \<and> game_inv s'"
proof -
  have y: "0 \<le> currentY s" using assms by (simp add: game_inv_def)
  have v: "isValidMove (board s) (currentX s + d) (currentY s) (shape_val s)
           = Inr (fits (board s) (currentX s + d) (currentY s) (shape_val s))"
    by (rule inv_isValidMove [OF assms y])
  show ?thesis
  proof (cases "fits (board s) (currentX s + d) (currentY s) (shape_val s)")
    case True
    then have "game_inv (s\<lparr>currentX := currentX s + d\<rparr>)"
      using assms by (simp add: game_inv_def shape_val_def)
    then show ?thesis using v True by (simp add: movePiece_def)
  next
    case False
    then show ?thesis using v assms by (simp add: movePiece_def)
  qed
qed

lemma rotatePiece_inv:
  assumes "game_inv s"
  shows "\<exists>s'. rotatePiece s = Inr s' \<and> game_inv s'"
proof -
  let ?h = "store s" and ?sh = "shape (currentPiece s)"
  have pre: "heap_ok ?h" "?sh < nmats ?h" "mask_at ?h ?sh \<noteq> []" "hd (mask_at ?h ?sh) \<noteq> []"
    and h0: "heap_extends heap0 ?h" and y: "0 \<le> currentY s"
    using assms by (simp_all add: game_inv_def shape_val_def)
  from rotated_frame [OF pre(1,2,3)] obtain h' where
    rot: "rotated ?h ?sh = Inr (h', nmats ?h)"
    and val: "mask_at h' (nmats ?h) = rotate_mask (mask_at ?h ?sh)"
    and ext: "heap_extends ?h h'" and ok: "heap_ok h'" and n: "nmats h' = Suc (nmats ?h)"
    by blast
  have v: "isValidMove (board s) (currentX s) (currentY s) (mask_at h' (nmats ?h))
           = Inr (fits (board s) (currentX s) (currentY s) (mask_at h' (nmats ?h)))"
    by (rule inv_isValidMove [OF assms y])
  have h0': "heap_extends heap0 h'" using h0 ext by (rule heap_extends_trans)
  have keep: "mask_at h' ?sh = mask_at ?h ?sh" using ext pre(1,2) by (rule mask_at_extends)
  show ?thesis
  proof (cases "fits (board s) (currentX s) (currentY s) (mask_at h' (nmats ?h))")
    case True
    have "game_inv (s\<lparr>store := h', currentPiece := (currentPiece s)\<lparr>shape := nmats ?h\<rparr>\<rparr>)"
      using assms True val rotate_mask_nonempty [OF pre(3,4)] ok n h0'
      by (simp add: game_inv_def shape_val_def)
    then show ?thesis using rot v True by (simp add: rotatePiece_def)
  next
    case False
    have "game_inv (s\<lparr>store := h'\<rparr>)"
      using assms keep ok n h0' by (simp add: game_inv_def shape_val_def)
    then show ?thesis using rot v False by (simp add: rotatePiece_def)
  qed
qed

lemma placePiece_inv:
  assumes "game_inv s" "k < 7"
  shows "\<exists>s'. placePiece s k c = Inr s' \<and> game_inv s'"
proof -
  have bo: "board_ok (board s)" and ft: "fits (board s) (currentX s) (currentY s) (shape_val s)"
    using assms(1) by (simp_all add: game_inv_def)
  from mergePiece_ok [OF bo ft] obtain b1 where
    b1: "mergePiece (board s) (currentX s) (currentY s) (color (currentPiece s)) (shape_val s) = Inr b1"
    and b1ok: "board_ok b1" by blast
  from clearLines_ok [OF b1ok] obtain b2 sc where
    b2: "clearLines b1 (score s) = Inr (b2, sc)" and b2ok: "board_ok b2" by blast
  let ?t = "s\<lparr>board := b2, score := sc\<rparr>"
  have pre: "PIECES ?t = PIECES0" "heap_extends heap0 (store ?t)" "heap_ok (store ?t)"
    using assms(1) by (simp_all add: game_inv_def)
  from newPiece_spawn [OF pre assms(2), of c] obtain s3 where
    s3: "newPiece ?t k c = Inr s3"
    and f3: "board s3 = b2" "PIECES s3 = PIECES0" "currentY s3 = 0"
      "currentX s3 = spawnX (SHAPES ! k)" "shape_val s3 = SHAPES ! k"
      "heap_extends (store s) (store s3)" "heap_ok (store s3)"
      "shape (currentPiece s3) < nmats (store s3)"
    using pre(1) by auto
  have h0: "heap_extends heap0 (store s3)"
    using pre(2) f3(6) heap_extends_trans by simp
  have v: "isValidMove (board s3) (currentX s3) (currentY s3) (shape_val s3)
           = Inr (fits b2 (spawnX (SHAPES ! k)) 0 (SHAPES ! k))"
    using isValidMove_fits [of b2 0 "spawnX (SHAPES ! k)" "SHAPES ! k"] b2ok f3
    by (simp add: board_ok_def)
  note ne = SHAPES_nonempty [OF assms(2)]
  show ?thesis
  proof (cases "fits b2 (spawnX (SHAPES ! k)) 0 (SHAPES ! k)")
    case True
    have "game_inv s3" using True f3 b2ok h0 ne by (simp add: game_inv_def)
    then show ?thesis using b1 b2 s3 v True by (simp add: placePiece_def)
  next
    case False
    have "game_inv (gameOver s3)"
      using f3 h0 ne spawn_fits_empty [OF assms(2)] board_ok_createBoard
      by (simp add: game_inv_def gameOver_def shape_val_def)
    then show ?thesis using b1 b2 s3 v False by (simp add: placePiece_def)
  qed
qed

lemma drop_piece_inv:
  assumes "game_inv s" "k < 7"
  shows "\<exists>s'. drop_piece s k c = Inr s' \<and> game_inv s'"
proof -
  have y: "0 \<le> currentY s + 1" using assms(1) by (simp add: game_inv_def)
  have v: "isValidMove (board s) (currentX s) (currentY s + 1) (shape_val s)
           = Inr (fits (board s) (currentX s) (currentY s + 1) (shape_val s))"
    by (rule inv_isValidMove [OF assms(1) y])
  show ?thesis
  proof (cases "fits (board s) (currentX s) (currentY s + 1) (shape_val s)")
    case True
    then have "game_inv (s\<lparr>currentY := currentY s + 1\<rparr>)"
      using assms(1) by (simp add: game_inv_def shape_val_def)
    then show ?thesis using v True by (simp add: drop_piece_def)
  next
    case False
    then show ?thesis using v placePiece_inv [OF assms] by (simp add: drop_piece_def)
  qed
qed

lemma start_inv:
  assumes "k < 7"
  shows "\<exists>s. newPiece game0 k c = Inr s \<and> game_inv s"
proof -
  have pre: "PIECES game0 = PIECES0" "heap_extends heap0 (store game0)" "heap_ok (store game0)"
    by (simp_all add: game0_def heap_extends_refl heap_ok_heap0)
  from newPiece_spawn [OF pre assms, of c] obtain s where
    s: "newPiece game0 k c = Inr s"
    and f: "board s = board game0" "PIECES s = PIECES0" "currentY s = 0"
      "currentX s = spawnX (SHAPES ! k)" "shape_val s = SHAPES ! k"
      "heap_extends (store game0) (store s)" "heap_ok (store s)"
      "shape (currentPiece s) < nmats (store s)"
    using pre(1) by auto
  have "game_inv s"
    using f SHAPES_nonempty [OF assms] spawn_fits_empty [OF assms] board_ok_createBoard
    by (simp add: game_inv_def game0_def)
  with s show ?thesis by blast
qed

lemma handle_inv:
  assumes "game_inv s" "random_ok s ev"
  shows "\<exists>s'. handle s ev = Inr s' \<and> game_inv s'"
proof -
  have len: "length (PIECES s) = 7" using assms(1) by (simp add: game_inv_def PIECES0_def)
  show ?thesis
  proof (cases ev)
    case ArrowLeft
    then show ?thesis using movePiece_inv [OF assms(1)] by simp
  next
    case ArrowRight
    then show ?thesis using movePiece_inv [OF assms(1)] by simp
  next
    case (ArrowDown k c)
    then show ?thesis using drop_piece_inv [OF assms(1), of k c] assms(2) len by simp
  next
    case ArrowUp
    then show ?thesis using rotatePiece_inv [OF assms(1)] by simp
  next
    case (Tick k c)
    then show ?thesis using drop_piece_inv [OF assms(1), of k c] assms(2) len by simp
  qed
qed

lemma reachable_inv: "reachable s \<Longrightarrow> game_inv s"
proof (induction rule: reachable.induct)
  case (start k c s)
  then have "k < 7" by (simp add: game0_def PIECES0_def)
  from start_inv [OF this, of c] start show ?case by simp
next
  case (step s ev s')
  from handle_inv [OF step.IH step.hyps(2)] step.hyps(3) show ?case by simp
qed

section \<open>Effects of the operations on a running game\<close>

lemma rotatePiece_effect:
  assumes "game_inv s"
  shows "\<exists>h'. rotated (store s) (shape (currentPiece s)) = Inr (h', nmats (store s))
      \<and> mask_at h' (nmats (store s)) = rotate_mask (shape_val s)
      \<and> heap_extends (store s) h'
      \<and> (\<forall>r\<in>set (mats h' (nmats (store s))). nrows (store s) \<le> r)
      \<and> shape_val (s\<lparr>store := h'\<rparr>) = shape_val s
      \<and> rotatePiece s =
          Inr (if fits (board s) (currentX s) (currentY s) (rotate_mask (shape_val s))
               then s\<lparr>store := h', currentPiece := (currentPiece s)\<lparr>shape := nmats (store s)\<rparr>\<rparr>
               else s\<lparr>store := h'\<rparr>)"
proof -
  let ?h = "store s" and ?sh = "shape (currentPiece s)"
  have pre: "heap_ok ?h" "?sh < nmats ?h" "mask_at ?h ?sh \<noteq> []"
    and y: "0 \<le> currentY s"
    using assms by (simp_all add: game_inv_def shape_val_def)
  from rotated_frame [OF pre] obtain h' where
    rot: "rotated ?h ?sh = Inr (h', nmats ?h)"
    and val: "mask_at h' (nmats ?h) = rotate_mask (mask_at ?h ?sh)"
    and ext: "heap_extends ?h h'"
    and fresh: "\<forall>r\<in>set (mats h' (nmats ?h)). nrows ?h \<le> r"
    by blast
  have v: "isValidMove (board s) (currentX s) (currentY s) (mask_at h' (nmats ?h))
           = Inr (fits (board s) (currentX s) (currentY s) (rotate_mask (shape_val s)))"
    using inv_isValidMove [OF assms y] val by (simp add: shape_val_def)
  have keep: "shape_val (s\<lparr>store := h'\<rparr>) = shape_val s"
    using mask_at_extends [OF ext pre(1,2)] by (simp add: shape_val_def)
  have "rotatePiece s =
          Inr (if fits (board s) (currentX s) (currentY s) (rotate_mask (shape_val s))
               then s\<lparr>store := h', currentPiece := (currentPiece s)\<lparr>shape := nmats (store s)\<rparr>\<rparr>
               else s\<lparr>store := h'\<rparr>)"
    using rot v by (simp add: rotatePiece_def)
  with rot val ext fresh keep show ?thesis by (auto simp: shape_val_def)
qed

lemma placePiece_extends:
  assumes "game_inv s" "k < 7" "placePiece s k c = Inr s'"
  shows "heap_extends (store s) (store s') \<and> PIECES s' = PIECES s"
proof -
  have pre: "PIECES s = PIECES0" "heap_extends heap0 (store s)" "heap_ok (store s)"
    using assms(1) by (simp_all add: game_inv_def)
  from assms(3) obtain b1 b2 sc s3 ok where
    s3: "newPiece (s\<lparr>board := b2, score := sc\<rparr>) k c = Inr s3"
    and s': "s' = (if \<not> ok then gameOver s3 else s3)"
    by (auto simp: placePiece_def split: sum.splits prod.splits)
  have pre': "PIECES (s\<lparr>board := b2, score := sc\<rparr>) = PIECES0"
    "heap_extends heap0 (store (s\<lparr>board := b2, score := sc\<rparr>))"
    "heap_ok (store (s\<lparr>board := b2, score := sc\<rparr>))"
    using pre by simp_all
  from newPiece_spawn [OF pre' assms(2), of c] s3
  have "heap_extends (store s) (store s3)" "PIECES s3 = PIECES s" by auto
  then show ?thesis using s' by (simp add: gameOver_def)
qed

lemma start_game_eq: "k < 7 \<Longrightarrow> newPiece game0 k c = Inr (start_game k c)"
  using start_inv [of k c] by (auto simp: start_game_def)

lemma reachable_start_game: "k < 7 \<Longrightarrow> c < 16777215 \<Longrightarrow> reachable (start_game k c)"
proof -
  assume k: "k < 7" and c: "c < 16777215"
  have "k < length (PIECES game0)" using k by (simp add: game0_def PIECES0_def)
  then show ?thesis using c start_game_eq [OF k] by (rule reachable.start)
qed

lemma reachable_run:
  "reachable s \<Longrightarrow> list_all (random_ok game0) evs \<Longrightarrow> run s evs = Inr s' \<Longrightarrow> reachable s'"
proof (induction evs arbitrary: s)
  case Nil
  then show ?case by simp
next
  case (Cons ev evs)
  from Cons.prems(3) obtain t where t: "handle s ev = Inr t" "run t evs = Inr s'"
    by (auto split: sum.splits)
  have "PIECES s = PIECES game0"
    using reachable_inv [OF Cons.prems(1)] by (simp add: game_inv_def game0_def)
  then have "random_ok s ev" using Cons.prems(2) by (cases ev) simp_all
  with Cons.prems(1) have "reachable t" using t(1) by (rule reachable.step)
  then show ?case using Cons.IH t(2) Cons.prems(2) by simp
qed

lemma run_inv:
  "game_inv s \<Longrightarrow> list_all (random_ok game0) evs \<Longrightarrow> \<exists>s'. run s evs = Inr s' \<and> game_inv s'"
proof (induction evs arbitrary: s)
  case Nil
  then show ?case by simp
next
  case (Cons ev evs)
  have "PIECES s = PIECES game0"
    using Cons.prems(1) by (simp add: game_inv_def game0_def)
  then have "random_ok s ev" using Cons.prems(2) by (cases ev) simp_all
  from handle_inv [OF Cons.prems(1) this] obtain t where t: "handle s ev = Inr t" "game_inv t"
    by blast
  from Cons.IH [OF t(2)] Cons.prems(2) t(1) show ?case by simp
qed

lemma state_after_reachable:
  assumes "k < 7" "c < 16777215" "list_all (random_ok game0) evs"
  shows "run (start_game k c) evs = Inr (state_after k c evs) \<and> reachable (state_after k c evs)"
proof -
  have r: "reachable (start_game k c)" using assms(1,2) by (rule reachable_start_game)
  from run_inv [OF reachable_inv [OF r] assms(3)]
  have run: "run (start_game k c) evs = Inr (state_after k c evs)"
    by (auto simp: state_after_def)
  with r assms(3) show ?thesis using reachable_run by blast
qed

lemma newPiece_keeps:
  assumes "newPiece s k c = Inr s'"
  shows "alerts s' = alerts s \<and> board s' = board s \<and> score s' = score s \<and> PIECES s' = PIECES s"
proof -
  from assms have k: "k < length (PIECES s)" by (simp add: newPiece_def split: if_splits)
  obtain h sh where hs: "(case PIECES s ! k of
                  Grid m \<Rightarrow>
                    if mats (store s) m \<noteq> [] then (store s, m)
                    else (let (h1, r) = alloc_row (store s) [] in alloc_mat h1 [r])
                | Flat r \<Rightarrow> alloc_mat (store s) [r]) = (h, sh)"
    by (cases "(case PIECES s ! k of
                  Grid m \<Rightarrow>
                    if mats (store s) m \<noteq> [] then (store s, m)
                    else (let (h1, r) = alloc_row (store s) [] in alloc_mat h1 [r])
                | Flat r \<Rightarrow> alloc_mat (store s) [r])")
  have "s' = s\<lparr>store := h,
                   currentPiece := \<lparr>shape = sh, color = CHR ''#'' # toString16 c\<rparr>,
                   currentX := int (COLS div 2) - int (length (rows h (hd (mats h sh))) div 2),
                   currentY := 0\<rparr>"
    using assms k unfolding newPiece_def hs by simp
  then show ?thesis by simp
qed






lemma newPiece_row:
  assumes "newPiece s k c = Inr s'"
  shows "currentY s' = 0"
proof -
  from assms have k: "k < length (PIECES s)" by (simp add: newPiece_def split: if_splits)
  obtain h sh where hs: "(case PIECES s ! k of
                  Grid m \<Rightarrow>
                    if mats (store s) m \<noteq> [] then (store s, m)
                    else (let (h1, r) = alloc_row (store s) [] in alloc_mat h1 [r])
                | Flat r \<Rightarrow> alloc_mat (store s) [r]) = (h, sh)"
    by (cases "(case PIECES s ! k of
                  Grid m \<Rightarrow>
                    if mats (store s) m \<noteq> [] then (store s, m)
                    else (let (h1, r) = alloc_row (store s) [] in alloc_mat h1 [r])
                | Flat r \<Rightarrow> alloc_mat (store s) [r])")
  have "s' = s\<lparr>store := h,
                   currentPiece := \<lparr>shape = sh, color = CHR ''#'' # toString16 c\<rparr>,
                   currentX := int (COLS div 2) - int (length (rows h (hd (mats h sh))) div 2),
                   currentY := 0\<rparr>"
    using assms k unfolding newPiece_def hs by simp
  then show ?thesis by simp
qed




section \<open>Rotation of rectangular masks\<close>

lemma rotate_mask_rect:
  assumes "rect R n m" "0 < R"
  shows "rotate_mask m = map (\<lambda>i. rev (map (\<lambda>row. row ! i) m)) [0..<n]"
proof -
  have len: "\<And>r. r \<in> set m \<Longrightarrow> length r = n" and R: "length m = R"
    using assms(1) by (simp_all add: rect_def list_all_iff)
  have "m \<noteq> []" using assms(2) R by auto
  then have "hd m \<in> set m" by simp
  then have hd: "length (hd m) = n" by (rule len)
  have "map (\<lambda>row. js_nth row i) m = map (\<lambda>row. row ! i) m" if "i < n" for i
    using that len by (simp add: js_nth_def)
  then show ?thesis unfolding rotate_mask_def hd by simp
qed

lemma rotate_mask_nth:
  assumes "rect R n m" "0 < R"
  shows "rect n R (rotate_mask m)"
    and "i < n \<Longrightarrow> j < R \<Longrightarrow> rotate_mask m ! i ! j = m ! (R - 1 - j) ! i"
proof -
  have R: "length m = R" using assms(1) by (simp add: rect_def)
  show "rect n R (rotate_mask m)"
    unfolding rotate_mask_rect [OF assms] using R by (simp add: rect_def list_all_iff)
  assume ij: "i < n" "j < R"
  have "R - 1 - j < R" using ij by simp
  then show "rotate_mask m ! i ! j = m ! (R - 1 - j) ! i"
    unfolding rotate_mask_rect [OF assms] using ij R by (simp add: rev_nth)
qed

lemma rotate_mask_transpose:
  assumes "rect R n m" "0 < R"
  shows "rotate_mask m = map rev (transpose m)"
proof -
  have len: "\<And>i. i < length m \<Longrightarrow> length (m ! i) = n" and R: "length m = R"
    using assms(1) by (simp_all add: rect_def list_all_iff)
  have ne: "m = [] \<Longrightarrow> n = 0" using assms(2) R by simp
  have col: "map (\<lambda>row. row ! i) m = map (\<lambda>j. m ! j ! i) [0..<length m]" for i
    by (rule nth_equalityI) simp_all
  have tr: "transpose m = map (\<lambda>i. map (\<lambda>j. m ! j ! i) [0..<length m]) [0..<n]"
    by (rule transpose_rectangle) (use ne len in simp_all)
  have "map rev (transpose m) = map (\<lambda>i. rev (map (\<lambda>j. m ! j ! i) [0..<length m])) [0..<n]"
    unfolding tr by (simp add: comp_def)
  also have "\<dots> = map (\<lambda>i. rev (map (\<lambda>row. row ! i) m)) [0..<n]"
    unfolding col ..
  also have "\<dots> = rotate_mask m"
    by (rule rotate_mask_rect [OF assms, symmetric])
  finally show ?thesis by simp
qed

lemma rect_eqI:
  assumes "rect R n a" "rect R n b" "\<And>i j. i < R \<Longrightarrow> j < n \<Longrightarrow> a ! i ! j = b ! i ! j"
  shows "a = b"
proof (rule nth_equalityI)
  show "length a = length b" using assms(1,2) by (simp add: rect_def)
  fix i assume i: "i < length a"
  then have iR: "i < R" using assms(1) by (simp add: rect_def)
  have la: "length (a ! i) = n" using assms(1) i by (simp add: rect_def list_all_iff)
  have lb: "length (b ! i) = n" using assms(1,2) i by (simp add: rect_def list_all_iff)
  show "a ! i = b ! i"
    by (rule nth_equalityI) (use la lb assms(3) [OF iR] in simp_all)
qed

lemma rotate_mask_four:
  assumes "rect R n m" "0 < R" "0 < n"
  shows "rotate_mask (rotate_mask (rotate_mask (rotate_mask m))) = m"
proof -
  let ?m1 = "rotate_mask m"
  let ?m2 = "rotate_mask ?m1"
  let ?m3 = "rotate_mask ?m2"
  let ?m4 = "rotate_mask ?m3"
  note r1 = rotate_mask_nth [OF assms(1,2)]
  note r2 = rotate_mask_nth [OF r1(1) assms(3)]
  note r3 = rotate_mask_nth [OF r2(1) assms(2)]
  note r4 = rotate_mask_nth [OF r3(1) assms(3)]
  show "?m4 = m"
  proof (rule rect_eqI [OF r4(1) assms(1)])
    fix i j assume i: "i < R" and j: "j < n"
    have "?m4 ! i ! j = ?m3 ! (n - 1 - j) ! i" using r4(2) i j by simp
    also have "\<dots> = ?m2 ! (R - 1 - i) ! (n - 1 - j)" using r3(2) [of "n - 1 - j" i] i j by simp
    also have "\<dots> = ?m1 ! (n - 1 - (n - 1 - j)) ! (R - 1 - i)"
      using r2(2) [of "R - 1 - i" "n - 1 - j"] i j by simp
    also have "\<dots> = m ! (R - 1 - (R - 1 - i)) ! (n - 1 - (n - 1 - j))"
      using r1(2) [of "n - 1 - (n - 1 - j)" "R - 1 - i"] i j by simp
    also have "\<dots> = m ! i ! j" using i j by simp
    finally show "?m4 ! i ! j = m ! i ! j" .
  qed
qed

lemma catalog_value:
  assumes "heap_extends heap0 h"
  shows "map (entry_val h) PIECES0 =
     [Inl [Num 1, Num 1, Num 1, Num 1],
      Inr [[Num 1, Num 1, Num 1], [Num 0, Num 1, Num 0]],
      Inr [[Num 1, Num 1], [Num 1, Num 1]],
      Inr [[Num 1, Num 1, Num 0], [Num 0, Num 1, Num 1]],
      Inr [[Num 0, Num 1, Num 1], [Num 1, Num 1, Num 0]],
      Inr [[Num 1, Num 0, Num 0], [Num 1, Num 1, Num 1]],
      Inr [[Num 0, Num 0, Num 1], [Num 1, Num 1, Num 1]]]"
  using catalog_arrays [OF assms] by (simp add: PIECES0_def mask_at_def)

section \<open>The claims\<close>

text \<open>
  C9: a freshly created board (\<open>createBoard\<close> run on the empty array, as at line 170 and in
  \<open>gameOver\<close>) has \<open>ROWS\<close> rows of \<open>COLS\<close> cells, every cell is the empty marker, and the
  row-fullness test of line 108 is false for every row.
\<close>

theorem createBoard_all_empty:
  "createBoard [] = replicate ROWS (replicate COLS EMPTY)
   \<and> length (createBoard []) = ROWS
   \<and> list_all (\<lambda>r. length r = COLS \<and> list_all (\<lambda>c. c = EMPTY) r) (createBoard [])
   \<and> list_all (\<lambda>r. \<not> isRowFull r) (createBoard [])"
  by (simp add: createBoard_Nil list_all_iff empty_row_not_full)

text \<open>
  C4: clearing row \<open>row\<close> (lines 109-110) keeps the number of rows, puts an all-empty row
  at index 0, moves each row above \<open>row\<close> down by one with its contents, and leaves the rows
  below \<open>row\<close> where they were; when \<open>row\<close> is the only full row of the board, this is the
  whole effect of \<open>clearLines\<close>, and the score grows by 10.
\<close>

theorem clearRow_shift_down:
  assumes "row < length b"
  shows "length (clearRow b row) = length b
     \<and> clearRow b row ! 0 = replicate COLS EMPTY
     \<and> (\<forall>i. 0 < i \<and> i \<le> row \<longrightarrow> clearRow b row ! i = b ! (i - 1))
     \<and> (\<forall>i. row < i \<and> i < length b \<longrightarrow> clearRow b row ! i = b ! i)
     \<and> (length b = ROWS \<and> map isRowFull b = (replicate ROWS False)[row := True]
          \<longrightarrow> clearLines b sc = Inr (clearRow b row, sc + 10))"
proof -
  have "clearLines b sc = Inr (clearRow b row, sc + 10)"
    if len: "length b = ROWS" and full: "map isRowFull b = (replicate ROWS False)[row := True]"
  proof -
    have nth: "isRowFull (b ! i) = (i = row)" if "i < ROWS" for i
    proof -
      have "isRowFull (b ! i) = map isRowFull b ! i" using that len by simp
      also have "\<dots> = (i = row)" unfolding full using that assms len by (auto simp: nth_list_update)
      finally show ?thesis .
    qed
    have "clearLoop ROWS b 0 = Inr (clearRow b row, Suc 0)"
      using assms len nth by (intro clearLoop_one) auto
    then show ?thesis by (simp add: clearLines_def)
  qed
  moreover have "clearRow b row ! 0 = replicate COLS EMPTY"
    by (simp add: clearRow_def)
  moreover have "\<forall>i. 0 < i \<and> i \<le> row \<longrightarrow> clearRow b row ! i = b ! (i - 1)"
    using assms by (simp add: clearRow_nth)
  moreover have "\<forall>i. row < i \<and> i < length b \<longrightarrow> clearRow b row ! i = b ! i"
    using assms by (simp add: clearRow_nth)
  ultimately show ?thesis using assms by (simp add: clearRow_length)
qed

theorem clearRow_shift_down_witness:
  "19 < length one_full_board \<and> length one_full_board = ROWS
   \<and> map isRowFull one_full_board = (replicate ROWS False)[19 := True]
   \<and> clearLines one_full_board 0 =
       Inr (replicate 17 (replicate 10 EMPTY) @ replicate 3 (replicate 9 EMPTY @ [Color ''#1f'']), 10)
   \<and> clearRow one_full_board 19 ! 0 = replicate COLS EMPTY"
proof -
  have h1: "19 < length one_full_board" by (simp add: one_full_board_def)
  have h2: "length one_full_board = ROWS" by (simp add: one_full_board_def ROWS_def)
  have h3: "map isRowFull one_full_board = (replicate ROWS False)[19 := True]" by code_simp
  have h4: "clearRow one_full_board 19 =
      replicate 17 (replicate 10 EMPTY) @ replicate 3 (replicate 9 EMPTY @ [Color ''#1f''])"
    by code_simp
  show ?thesis
    using clearRow_shift_down [OF h1, of 0] h1 h2 h3 h4 by simp
qed

text \<open>
  C2, as stated, fails: the callback has no test \<open>newY >= 0\<close>. For an occupied cell above
  the board whose column is on the board, \<open>board[newY]\<close> is \<open>undefined\<close> and the lookup
  raises; the call neither skips the lookup nor returns. Here the I piece at row \<open>-1\<close> over
  the empty board.
\<close>

theorem isValidMove_row_above_counterexample:
  "looks_up 3 (- 1) (Num 1) \<and> js_row (createBoard []) (- 1) = None
   \<and> probe (createBoard []) 3 (- 1) (Num 1) = Inl TypeError
   \<and> isValidMove (createBoard []) 3 (- 1) [[Num 1, Num 1, Num 1, Num 1]] = Inl TypeError"
  by code_simp

text \<open>
  C2, amended: the callback looks a cell up exactly when the cell is occupied, its column
  is in \<open>[0, COLS)\<close> and its row is below \<open>ROWS\<close>; otherwise it returns without reading
  the board, whatever the board. On a board of \<open>ROWS\<close> rows of \<open>COLS\<close> cells and at a
  candidate row \<open>y \<ge> 0\<close>, \<open>isValidMove\<close> returns a truth value, and every such lookup is
  at a row and a column of the grid. Every call of the script is of that kind: a state
  the game reaches has such a board and a piece at a row \<open>\<ge> 0\<close> (\<open>movePiece\<close>,
  \<open>rotatePiece\<close>, the drop), and the spawn check of \<open>placePiece\<close> is made at row 0 on the
  board left by the merge and the line clearing, which is such a board too.
\<close>

theorem isValidMove_lookups_in_bounds:
  "probe bb X Y v =
     (if looks_up X Y v
      then (case js_row bb Y of None \<Rightarrow> Inl TypeError | Some r \<Rightarrow> Inr (js_cell r X = EMPTY))
      else Inr (\<not> truthy v))
   \<and> (board_ok b \<and> 0 \<le> y \<longrightarrow>
        (\<exists>ok. isValidMove b x y m = Inr ok)
        \<and> (\<forall>dy<length m. \<forall>dx<length (m ! dy).
             looks_up (x + int dx) (y + int dy) (m ! dy ! dx) \<longrightarrow>
               0 \<le> y + int dy \<and> y + int dy < int (length b)
               \<and> 0 \<le> x + int dx \<and> x + int dx < int (length (b ! nat (y + int dy)))
               \<and> probe b (x + int dx) (y + int dy) (m ! dy ! dx)
                   = Inr (b ! nat (y + int dy) ! nat (x + int dx) = EMPTY)))
   \<and> (reachable s \<longrightarrow> board_ok (board s) \<and> 0 \<le> currentY s)
   \<and> (reachable s
        \<and> mergePiece (board s) (currentX s) (currentY s) (color (currentPiece s)) (shape_val s) = Inr b1
        \<and> clearLines b1 (score s) = Inr (b2, sc)
        \<and> newPiece (s\<lparr>board := b2, score := sc\<rparr>) k c = Inr s3
      \<longrightarrow> board s3 = b2 \<and> board_ok (board s3) \<and> currentY s3 = 0)"
proof -
  have p: "probe bb X Y v =
     (if looks_up X Y v
      then (case js_row bb Y of None \<Rightarrow> Inl TypeError | Some r \<Rightarrow> Inr (js_cell r X = EMPTY))
      else Inr (\<not> truthy v))"
    by (rule probe_looks_up)
  have q: "board_ok b \<and> 0 \<le> y \<longrightarrow>
        (\<exists>ok. isValidMove b x y m = Inr ok)
        \<and> (\<forall>dy<length m. \<forall>dx<length (m ! dy).
             looks_up (x + int dx) (y + int dy) (m ! dy ! dx) \<longrightarrow>
               0 \<le> y + int dy \<and> y + int dy < int (length b)
               \<and> 0 \<le> x + int dx \<and> x + int dx < int (length (b ! nat (y + int dy)))
               \<and> probe b (x + int dx) (y + int dy) (m ! dy ! dx)
                   = Inr (b ! nat (y + int dy) ! nat (x + int dx) = EMPTY))"
  proof (intro impI, elim conjE)
    assume bo: "board_ok b" and y: "0 \<le> y"
    have len: "length b = ROWS" using bo by (simp add: board_ok_def)
    have rowlen: "length (b ! i) = COLS" if "i < ROWS" for i
    proof -
      have "b ! i \<in> set b" using that len by simp
      then show ?thesis using bo by (auto simp: board_ok_def list_all_iff)
    qed
    have "\<exists>ok. isValidMove b x y m = Inr ok"
      using isValidMove_fits [OF len y] by blast
    moreover have "0 \<le> y + int dy \<and> y + int dy < int (length b)
            \<and> 0 \<le> x + int dx \<and> x + int dx < int (length (b ! nat (y + int dy)))
            \<and> probe b (x + int dx) (y + int dy) (m ! dy ! dx)
                = Inr (b ! nat (y + int dy) ! nat (x + int dx) = EMPTY)"
      if "looks_up (x + int dx) (y + int dy) (m ! dy ! dx)" for dx dy
    proof -
      from that have b: "0 \<le> x + int dx" "x + int dx < int COLS" "y + int dy < int ROWS"
        by (simp_all add: looks_up_def)
      have ny: "nat (y + int dy) < ROWS" using b y by auto
      have rl: "length (b ! nat (y + int dy)) = COLS" using rowlen [OF ny] .
      have "js_row b (y + int dy) = Some (b ! nat (y + int dy))"
        using y b len by (simp add: js_row_def)
      moreover have "js_cell (b ! nat (y + int dy)) (x + int dx) = b ! nat (y + int dy) ! nat (x + int dx)"
        using b rl by (simp add: js_cell_def)
      ultimately show ?thesis
        using that b y len rl by (simp add: probe_looks_up)
    qed
    ultimately show "(\<exists>ok. isValidMove b x y m = Inr ok)
        \<and> (\<forall>dy<length m. \<forall>dx<length (m ! dy).
             looks_up (x + int dx) (y + int dy) (m ! dy ! dx) \<longrightarrow>
               0 \<le> y + int dy \<and> y + int dy < int (length b)
               \<and> 0 \<le> x + int dx \<and> x + int dx < int (length (b ! nat (y + int dy)))
               \<and> probe b (x + int dx) (y + int dy) (m ! dy ! dx)
                   = Inr (b ! nat (y + int dy) ! nat (x + int dx) = EMPTY))"
      by blast
  qed
  have r: "reachable s \<longrightarrow> board_ok (board s) \<and> 0 \<le> currentY s"
    using reachable_inv [of s] by (simp add: game_inv_def)
  have t: "reachable s
        \<and> mergePiece (board s) (currentX s) (currentY s) (color (currentPiece s)) (shape_val s) = Inr b1
        \<and> clearLines b1 (score s) = Inr (b2, sc)
        \<and> newPiece (s\<lparr>board := b2, score := sc\<rparr>) k c = Inr s3
      \<longrightarrow> board s3 = b2 \<and> board_ok (board s3) \<and> currentY s3 = 0"
  proof (intro impI, elim conjE)
    assume rs: "reachable s"
      and m: "mergePiece (board s) (currentX s) (currentY s) (color (currentPiece s)) (shape_val s) = Inr b1"
      and cl: "clearLines b1 (score s) = Inr (b2, sc)"
      and n: "newPiece (s\<lparr>board := b2, score := sc\<rparr>) k c = Inr s3"
    have inv: "game_inv s" using rs by (rule reachable_inv)
    then have bo: "board_ok (board s)" and ft: "fits (board s) (currentX s) (currentY s) (shape_val s)"
      by (simp_all add: game_inv_def)
    from mergePiece_ok [OF bo ft, of "color (currentPiece s)"] m have b1: "board_ok b1" by auto
    from clearLines_ok [OF b1, of "score s"] cl have b2: "board_ok b2" by auto
    from newPiece_keeps [OF n] have "board s3 = b2" by simp
    with b2 newPiece_row [OF n] show "board s3 = b2 \<and> board_ok (board s3) \<and> currentY s3 = 0"
      by simp
  qed
  show ?thesis by (intro conjI p q r t)
qed

theorem isValidMove_lookups_in_bounds_witness:
  "board_ok (createBoard []) \<and> (0::int) \<le> 0
   \<and> (\<exists>ok. isValidMove (createBoard []) 3 0 [[Num 1, Num 1, Num 1, Num 1]] = Inr ok)
   \<and> isValidMove (createBoard []) 3 0 [[Num 1, Num 1, Num 1, Num 1]] = Inr True
   \<and> looks_up (3 + int 2) (0 + int 0) ([[Num 1, Num 1, Num 1, Num 1]] ! 0 ! 2)
   \<and> \<not> looks_up 10 0 (Num 1) \<and> probe tower_merged 10 0 (Num 1) = Inr False
   \<and> reachable (start_game 0 255) \<and> 0 \<le> currentY (start_game 0 255)
   \<and> reachable (start_game 2 255)
   \<and> (case mergePiece (board (start_game 2 255)) (currentX (start_game 2 255))
              (currentY (start_game 2 255)) (color (currentPiece (start_game 2 255)))
              (shape_val (start_game 2 255)) of
         Inl e \<Rightarrow> False
       | Inr b1 \<Rightarrow>
          (case clearLines b1 (score (start_game 2 255)) of
             Inl e \<Rightarrow> False
           | Inr (b2, sc) \<Rightarrow>
              (case newPiece ((start_game 2 255)\<lparr>board := b2, score := sc\<rparr>) 2 255 of
                 Inl e \<Rightarrow> False
               | Inr s3 \<Rightarrow> board_ok (board s3) \<and> currentY s3 = 0)))"
proof -
  let ?I = "[[Num 1, Num 1, Num 1, Num 1]]"
  let ?u = "start_game 2 255"
  have y: "(0::int) \<le> 0" by simp
  have r: "reachable (start_game 0 255)" by (rule reachable_start_game) simp_all
  have ru: "reachable ?u" by (rule reachable_start_game) simp_all
  have inv: "game_inv ?u" using ru by (rule reachable_inv)
  have v: "isValidMove (createBoard []) 3 0 ?I = Inr True" by code_simp
  have l: "looks_up (3 + int 2) (0 + int 0) (?I ! 0 ! 2)"
    by (simp add: looks_up_def COLS_def ROWS_def)
  have nl: "\<not> looks_up 10 0 (Num 1)" by (simp add: looks_up_def COLS_def)
  from inv have bo: "board_ok (board ?u)" and ft: "fits (board ?u) (currentX ?u) (currentY ?u) (shape_val ?u)"
    and pre: "PIECES ?u = PIECES0" "heap_extends heap0 (store ?u)" "heap_ok (store ?u)"
    by (simp_all add: game_inv_def)
  from mergePiece_ok [OF bo ft, of "color (currentPiece ?u)"] obtain b1 where
    b1: "mergePiece (board ?u) (currentX ?u) (currentY ?u) (color (currentPiece ?u)) (shape_val ?u) = Inr b1"
    and b1ok: "board_ok b1" by blast
  from clearLines_ok [OF b1ok, of "score ?u"] obtain b2 sc where
    b2: "clearLines b1 (score ?u) = Inr (b2, sc)" by blast
  have pre': "PIECES (?u\<lparr>board := b2, score := sc\<rparr>) = PIECES0"
    "heap_extends heap0 (store (?u\<lparr>board := b2, score := sc\<rparr>))"
    "heap_ok (store (?u\<lparr>board := b2, score := sc\<rparr>))"
    using pre by simp_all
  from newPiece_spawn [OF pre', of 2 255] obtain s3 where
    s3: "newPiece (?u\<lparr>board := b2, score := sc\<rparr>) 2 255 = Inr s3" by auto
  note t1 = isValidMove_lookups_in_bounds [of tower_merged 10 0 "Num 1" "createBoard []" 0 3 ?I "start_game 0 255"]
  note t2 = isValidMove_lookups_in_bounds [of _ _ _ _ _ _ _ _ ?u b1 b2 sc 2 255 s3]
  from t1 nl have pf: "probe tower_merged 10 0 (Num 1) = Inr False" by simp
  from t1 board_ok_createBoard y
  have ex: "\<exists>ok. isValidMove (createBoard []) 3 0 ?I = Inr ok" by blast
  from t1 r have cy: "0 \<le> currentY (start_game 0 255)" by blast
  from t2 ru b1 b2 s3 have "board_ok (board s3) \<and> currentY s3 = 0" by blast
  then have last: "(case mergePiece (board ?u) (currentX ?u) (currentY ?u) (color (currentPiece ?u))
              (shape_val ?u) of
         Inl e \<Rightarrow> False
       | Inr b1 \<Rightarrow>
          (case clearLines b1 (score ?u) of
             Inl e \<Rightarrow> False
           | Inr (b2, sc) \<Rightarrow>
              (case newPiece (?u\<lparr>board := b2, score := sc\<rparr>) 2 255 of
                 Inl e \<Rightarrow> False
               | Inr s3 \<Rightarrow> board_ok (board s3) \<and> currentY s3 = 0)))"
    using b1 b2 s3 by simp
  show ?thesis
    using board_ok_createBoard ex v l nl pf r cy ru last by (intro conjI) simp_all
qed

text \<open>
  C5, as stated for every candidate position, fails at a negative candidate row: the I
  piece at column 7, row \<open>-1\<close> has its fourth cell at column \<open>COLS\<close>, but the call raises at
  the first cell and returns nothing.
\<close>

theorem isValidMove_no_return_counterexample:
  "truthy ([[Num 1, Num 1, Num 1, Num 1]] ! 0 ! 3) \<and> int COLS \<le> 7 + int 3
   \<and> isValidMove (createBoard []) 7 (- 1) [[Num 1, Num 1, Num 1, Num 1]] = Inl TypeError
   \<and> isValidMove (createBoard []) 7 (- 1) [[Num 1, Num 1, Num 1, Num 1]] \<noteq> Inr False"
proof -
  have "isValidMove (createBoard []) 7 (- 1) [[Num 1, Num 1, Num 1, Num 1]] = Inl TypeError"
    by code_simp
  then show ?thesis by (simp add: COLS_def)
qed

text \<open>
  C5, amended: if an occupied cell of the mask maps to a column outside \<open>[0, COLS)\<close> or to
  a row \<open>\<ge> ROWS\<close>, \<open>isValidMove\<close> never returns true, and at a candidate row \<open>y \<ge> 0\<close> on
  a board of \<open>ROWS\<close> rows it returns false; a \<open>movePiece\<close> request to such a position then
  leaves the whole state, the position included, as it was.
\<close>

theorem out_of_range_cell_rejected:
  assumes "dy < length m" "dx < length (m ! dy)" "truthy (m ! dy ! dx)"
    and "x + int dx < 0 \<or> int COLS \<le> x + int dx \<or> int ROWS \<le> y + int dy"
  shows "isValidMove b x y m \<noteq> Inr True
     \<and> (length b = ROWS \<and> 0 \<le> y \<longrightarrow> isValidMove b x y m = Inr False)
     \<and> (board s = b \<and> shape_val s = m \<and> currentX s + d = x \<and> currentY s = y
          \<and> length b = ROWS \<and> 0 \<le> y \<longrightarrow> movePiece s d = Inr s)"
proof -
  have not_true: "isValidMove b x y m \<noteq> Inr True"
    using isValidMove_True_bounds [OF _ assms(1,2,3), of b x y] assms(4) by auto
  have false: "isValidMove b x y m = Inr False" if "length b = ROWS" "0 \<le> y"
    using isValidMove_fits [OF that, of x m] not_true by auto
  have "movePiece s d = Inr s"
    if "board s = b" "shape_val s = m" "currentX s + d = x" "currentY s = y" "length b = ROWS" "0 \<le> y"
    using false that by (simp add: movePiece_def)
  with not_true false show ?thesis by blast
qed

theorem out_of_range_cell_rejected_witness:
  "truthy (shape_val (start_game 0 255) ! 0 ! 3)
   \<and> int COLS \<le> 7 + int 3
   \<and> isValidMove (createBoard []) 7 0 (shape_val (start_game 0 255)) = Inr False
   \<and> currentX ((start_game 0 255)\<lparr>currentX := 6\<rparr>) + 1 = 7
   \<and> movePiece ((start_game 0 255)\<lparr>currentX := 6\<rparr>) 1 = Inr ((start_game 0 255)\<lparr>currentX := 6\<rparr>)"
proof -
  have m: "shape_val (start_game 0 255) = [[Num 1, Num 1, Num 1, Num 1]]" by code_simp
  have b: "board (start_game 0 255) = createBoard []" by code_simp
  have y: "currentY (start_game 0 255) = 0" by code_simp
  have sv: "shape_val ((start_game 0 255)\<lparr>currentX := 6\<rparr>) = shape_val (start_game 0 255)"
    by (simp add: shape_val_def)
  have len: "length (createBoard []) = ROWS" by (simp add: createBoard_Nil)
  have h1: "0 < length (shape_val (start_game 0 255))" using m by simp
  have h2: "3 < length (shape_val (start_game 0 255) ! 0)" using m by simp
  have h3: "truthy (shape_val (start_game 0 255) ! 0 ! 3)" using m by simp
  have h4: "7 + int 3 < 0 \<or> int COLS \<le> 7 + int 3 \<or> int ROWS \<le> 0 + int 0" by (simp add: COLS_def)
  from out_of_range_cell_rejected [OF h1 h2 h3 h4, of "createBoard []" "(start_game 0 255)\<lparr>currentX := 6\<rparr>" 1]
  show ?thesis using h3 len b y sv by (simp add: COLS_def)
qed

text \<open>
  C1 fails on the code when two full rows are adjacent. After \<open>two_full_events\<close> the score
  is 0 and an O piece stands in the columns 8 and 9 of rows 18 and 19; merged, it makes both
  rows full. The next tick places it: the loop of \<open>clearLines\<close> clears row 19, the old row
  18 moves down to index 19, and the loop goes on at index 18 without looking at index 19
  again. One row is cleared, the score is 10 and not 20, and the board keeps a full row.
\<close>

theorem adjacent_full_rows_one_cleared:
  "(case run (start_game 2 255) two_full_events of
      Inl e \<Rightarrow> False
    | Inr s \<Rightarrow>
        score s = 0
        \<and> (case mergePiece (board s) (currentX s) (currentY s) (color (currentPiece s)) (shape_val s) of
             Inl e \<Rightarrow> False
           | Inr b1 \<Rightarrow> isRowFull (b1 ! 18) \<and> isRowFull (b1 ! 19))
        \<and> (case handle s (Tick 2 255) of
             Inl e \<Rightarrow> False
           | Inr s' \<Rightarrow> score s' = 10 \<and> isRowFull (board s' ! 19) \<and> \<not> isRowFull (board s' ! 18)))"
  by code_simp

text \<open>
  C3: the array \<open>rotatePiece\<close> builds denotes \<open>rotate_mask\<close> of the piece's mask; on a
  matrix of \<open>R\<close> rows of \<open>n\<close> elements this is the transpose with each row reversed, has
  \<open>n\<close> rows of \<open>R\<close> elements, and its element \<open>(i, j)\<close> is the old element
  \<open>(R - 1 - j, i)\<close>: a quarter turn clockwise. Four rotations give back any such matrix
  with at least one row and one column, so each of the seven masks a spawned piece holds;
  the \<open>1 \<times> 4\<close> I mask turns into the \<open>4 \<times> 1\<close> one and back. In a running game
  \<open>rotatePiece\<close> installs \<open>rotate_mask\<close> of the mask when it fits, and keeps the mask
  otherwise.
\<close>

theorem rotation_quarter_turn:
  "(heap_ok h \<and> sh < nmats h \<and> mask_at h sh \<noteq> [] \<longrightarrow>
      (\<exists>h'. rotated h sh = Inr (h', nmats h) \<and> mask_at h' (nmats h) = rotate_mask (mask_at h sh)))
   \<and> (rect R n m \<and> 0 < R \<longrightarrow>
        rotate_mask m = map rev (transpose m) \<and> rect n R (rotate_mask m)
        \<and> (\<forall>i<n. \<forall>j<R. rotate_mask m ! i ! j = m ! (R - 1 - j) ! i))
   \<and> (rect R n m \<and> 0 < R \<and> 0 < n \<longrightarrow> rotate_mask (rotate_mask (rotate_mask (rotate_mask m))) = m)
   \<and> (k < 7 \<longrightarrow> shape_val (start_game k c) = SHAPES ! k)
   \<and> list_all (\<lambda>m. rotate_mask (rotate_mask (rotate_mask (rotate_mask m))) = m) SHAPES
   \<and> rotate_mask [[Num 1, Num 1, Num 1, Num 1]] = [[Num 1], [Num 1], [Num 1], [Num 1]]
   \<and> rotate_mask [[Num 1], [Num 1], [Num 1], [Num 1]] = [[Num 1, Num 1, Num 1, Num 1]]
   \<and> (game_inv s \<longrightarrow>
        (\<exists>t. rotatePiece s = Inr t
           \<and> shape_val t =
               (if fits (board s) (currentX s) (currentY s) (rotate_mask (shape_val s))
                then rotate_mask (shape_val s) else shape_val s)))"
proof -
  have a: "heap_ok h \<and> sh < nmats h \<and> mask_at h sh \<noteq> [] \<longrightarrow>
      (\<exists>h'. rotated h sh = Inr (h', nmats h) \<and> mask_at h' (nmats h) = rotate_mask (mask_at h sh))"
    using rotated_frame [of h sh] by blast
  have b: "rect R n m \<and> 0 < R \<longrightarrow>
        rotate_mask m = map rev (transpose m) \<and> rect n R (rotate_mask m)
        \<and> (\<forall>i<n. \<forall>j<R. rotate_mask m ! i ! j = m ! (R - 1 - j) ! i)"
    using rotate_mask_transpose [of R n m] rotate_mask_nth [of R n m] by blast
  have c: "rect R n m \<and> 0 < R \<and> 0 < n \<longrightarrow> rotate_mask (rotate_mask (rotate_mask (rotate_mask m))) = m"
    using rotate_mask_four [of R n m] by blast
  have d: "k < 7 \<longrightarrow> shape_val (start_game k c) = SHAPES ! k"
  proof
    assume k: "k < 7"
    have pre: "PIECES game0 = PIECES0" "heap_extends heap0 (store game0)" "heap_ok (store game0)"
      by (simp_all add: game0_def heap_extends_refl heap_ok_heap0)
    from newPiece_spawn [OF pre k, of c] start_game_eq [OF k, of c]
    show "shape_val (start_game k c) = SHAPES ! k" by auto
  qed
  have e: "list_all (\<lambda>m. rotate_mask (rotate_mask (rotate_mask (rotate_mask m))) = m) SHAPES" by code_simp
  have f: "rotate_mask [[Num 1, Num 1, Num 1, Num 1]] = [[Num 1], [Num 1], [Num 1], [Num 1]]"
    by code_simp
  have g: "rotate_mask [[Num 1], [Num 1], [Num 1], [Num 1]] = [[Num 1, Num 1, Num 1, Num 1]]"
    by code_simp
  have i: "game_inv s \<longrightarrow>
        (\<exists>t. rotatePiece s = Inr t
           \<and> shape_val t =
               (if fits (board s) (currentX s) (currentY s) (rotate_mask (shape_val s))
                then rotate_mask (shape_val s) else shape_val s))"
  proof
    assume "game_inv s"
    from rotatePiece_effect [OF this] obtain h' where
      v: "mask_at h' (nmats (store s)) = rotate_mask (shape_val s)"
      and k: "shape_val (s\<lparr>store := h'\<rparr>) = shape_val s"
      and r: "rotatePiece s =
          Inr (if fits (board s) (currentX s) (currentY s) (rotate_mask (shape_val s))
               then s\<lparr>store := h', currentPiece := (currentPiece s)\<lparr>shape := nmats (store s)\<rparr>\<rparr>
               else s\<lparr>store := h'\<rparr>)"
      by blast
    show "\<exists>t. rotatePiece s = Inr t
           \<and> shape_val t =
               (if fits (board s) (currentX s) (currentY s) (rotate_mask (shape_val s))
                then rotate_mask (shape_val s) else shape_val s)"
      using v k r by (auto simp: shape_val_def)
  qed
  show ?thesis by (intro conjI a b c d e f g i)
qed

theorem rotation_quarter_turn_witness:
  "rect 2 3 [[Num 1, Num 1, Num 1], [Num 0, Num 1, Num 0]] \<and> (0::nat) < 2 \<and> (0::nat) < 3
   \<and> rotate_mask [[Num 1, Num 1, Num 1], [Num 0, Num 1, Num 0]]
       = map rev (transpose [[Num 1, Num 1, Num 1], [Num 0, Num 1, Num 0]])
   \<and> rotate_mask [[Num 1, Num 1, Num 1], [Num 0, Num 1, Num 0]]
       = [[Num 0, Num 1], [Num 1, Num 1], [Num 0, Num 1]]
   \<and> rotate_mask (rotate_mask (rotate_mask (rotate_mask [[Num 1, Num 1, Num 1], [Num 0, Num 1, Num 0]])))
       = [[Num 1, Num 1, Num 1], [Num 0, Num 1, Num 0]]
   \<and> shape_val (start_game 1 255) = [[Num 1, Num 1, Num 1], [Num 0, Num 1, Num 0]]
   \<and> game_inv (start_game 1 255)
   \<and> heap_ok (store (start_game 1 255))
   \<and> shape (currentPiece (start_game 1 255)) < nmats (store (start_game 1 255))
   \<and> (\<exists>h'. rotated (store (start_game 1 255)) (shape (currentPiece (start_game 1 255)))
               = Inr (h', nmats (store (start_game 1 255)))
            \<and> mask_at h' (nmats (store (start_game 1 255)))
               = [[Num 0, Num 1], [Num 1, Num 1], [Num 0, Num 1]])
   \<and> (\<exists>t. rotatePiece (start_game 1 255) = Inr t
          \<and> shape_val t = [[Num 0, Num 1], [Num 1, Num 1], [Num 0, Num 1]])"
proof -
  let ?T = "[[Num 1, Num 1, Num 1], [Num 0, Num 1, Num 0]]"
  let ?s = "start_game 1 255"
  have r: "rect 2 3 ?T" by (simp add: rect_def)
  have v: "rotate_mask ?T = [[Num 0, Num 1], [Num 1, Num 1], [Num 0, Num 1]]" by code_simp
  have s: "SHAPES ! 1 = ?T" by (simp add: SHAPES_def)
  have n: "(0::nat) < 2 \<and> (0::nat) < 3" by simp
  have k: "(1::nat) < 7" by simp
  have inv: "game_inv ?s"
    by (rule reachable_inv, rule reachable_start_game) simp_all
  then have hp: "heap_ok (store ?s)" "shape (currentPiece ?s) < nmats (store ?s)"
    "mask_at (store ?s) (shape (currentPiece ?s)) \<noteq> []"
    by (simp_all add: game_inv_def shape_val_def)
  have x: "currentX ?s = 4" "currentY ?s = 0" "board ?s = createBoard []" by code_simp+
  have ft: "isValidMove (createBoard []) 4 0 [[Num 0, Num 1], [Num 1, Num 1], [Num 0, Num 1]] = Inr True"
    by code_simp
  note t = rotation_quarter_turn [of "store ?s" "shape (currentPiece ?s)" 2 3 ?T 1 255 ?s]
  from t r n k have tr: "rotate_mask ?T = map rev (transpose ?T)"
    and four: "rotate_mask (rotate_mask (rotate_mask (rotate_mask ?T))) = ?T"
    and sv: "shape_val ?s = SHAPES ! 1"
    by blast+
  from t hp obtain h' where
    h': "rotated (store ?s) (shape (currentPiece ?s)) = Inr (h', nmats (store ?s))"
      "mask_at h' (nmats (store ?s)) = rotate_mask (mask_at (store ?s) (shape (currentPiece ?s)))"
    by blast
  have mv: "mask_at h' (nmats (store ?s)) = [[Num 0, Num 1], [Num 1, Num 1], [Num 0, Num 1]]"
    using h'(2) sv s v by (simp add: shape_val_def)
  have fits: "fits (board ?s) (currentX ?s) (currentY ?s) (rotate_mask (shape_val ?s))"
    using isValidMove_fits [of "createBoard []" 0 4 "[[Num 0, Num 1], [Num 1, Num 1], [Num 0, Num 1]]"]
      ft x sv s v by (simp add: createBoard_Nil)
  from t inv obtain u where
    u: "rotatePiece ?s = Inr u"
      "shape_val u = (if fits (board ?s) (currentX ?s) (currentY ?s) (rotate_mask (shape_val ?s))
                      then rotate_mask (shape_val ?s) else shape_val ?s)"
    by blast
  have uv: "shape_val u = [[Num 0, Num 1], [Num 1, Num 1], [Num 0, Num 1]]"
    using u(2) fits sv s v by simp
  show ?thesis
    using r n tr v four sv s inv hp(1,2) h'(1) mv u(1) uv by auto
qed



text \<open>
  C7: a \<open>movePiece\<close> request whose check returns false leaves the state as it is. A
  \<open>rotatePiece\<close> request whose check returns false changes nothing but the store, which
  gains the discarded arrays: the piece (its \<open>shape\<close> reference and its colour), its
  position, the board, the score are the same, and in a running game the matrix the
  \<open>shape\<close> denotes is the same. The check is made once, at the current position. In
  every state the game can reach, neither request raises.
\<close>

theorem invalid_request_is_noop:
  "(isValidMove (board s) (currentX s + d) (currentY s) (shape_val s) = Inr False
      \<longrightarrow> movePiece s d = Inr s)
   \<and> (rotated (store s) (shape (currentPiece s)) = Inr (h, rot)
        \<and> isValidMove (board s) (currentX s) (currentY s) (mask_at h rot) = Inr False
      \<longrightarrow> rotatePiece s = Inr (s\<lparr>store := h\<rparr>))
   \<and> (game_inv s \<and> rotated (store s) (shape (currentPiece s)) = Inr (h, rot)
      \<longrightarrow> heap_extends (store s) h \<and> shape_val (s\<lparr>store := h\<rparr>) = shape_val s
          \<and> mask_at h rot = rotate_mask (shape_val s))
   \<and> (reachable s \<longrightarrow> (\<exists>t. movePiece s d = Inr t) \<and> (\<exists>t. rotatePiece s = Inr t))"
proof -
  have a: "isValidMove (board s) (currentX s + d) (currentY s) (shape_val s) = Inr False
      \<longrightarrow> movePiece s d = Inr s"
    by (simp add: movePiece_def)
  have b: "rotated (store s) (shape (currentPiece s)) = Inr (h, rot)
        \<and> isValidMove (board s) (currentX s) (currentY s) (mask_at h rot) = Inr False
      \<longrightarrow> rotatePiece s = Inr (s\<lparr>store := h\<rparr>)"
    by (simp add: rotatePiece_def)
  have c: "game_inv s \<and> rotated (store s) (shape (currentPiece s)) = Inr (h, rot)
      \<longrightarrow> heap_extends (store s) h \<and> shape_val (s\<lparr>store := h\<rparr>) = shape_val s
          \<and> mask_at h rot = rotate_mask (shape_val s)"
  proof (intro impI, elim conjE)
    assume inv: "game_inv s" and r: "rotated (store s) (shape (currentPiece s)) = Inr (h, rot)"
    from rotatePiece_effect [OF inv] r
    show "heap_extends (store s) h \<and> shape_val (s\<lparr>store := h\<rparr>) = shape_val s
          \<and> mask_at h rot = rotate_mask (shape_val s)"
      by auto
  qed
  have e: "reachable s \<longrightarrow> (\<exists>t. movePiece s d = Inr t) \<and> (\<exists>t. rotatePiece s = Inr t)"
    using movePiece_inv [of s d] rotatePiece_inv [of s] reachable_inv [of s] by blast
  show ?thesis by (intro conjI a b c e)
qed

theorem invalid_request_is_noop_witness:
  "reachable wall_state
   \<and> isValidMove (board wall_state) (currentX wall_state + 1) (currentY wall_state)
        (shape_val wall_state) = Inr False
   \<and> movePiece wall_state 1 = Inr wall_state
   \<and> isValidMove (board wall_state) (currentX wall_state) (currentY wall_state)
        (rotate_mask (shape_val wall_state)) = Inr False
   \<and> (\<exists>h. rotatePiece wall_state = Inr (wall_state\<lparr>store := h\<rparr>)
          \<and> shape_val (wall_state\<lparr>store := h\<rparr>) = shape_val wall_state)"
proof -
  have ev: "list_all (random_ok game0) (replicate 3 ArrowRight @ replicate 18 (Tick 0 255))"
    by (simp add: list_all_iff game0_def PIECES0_def)
  have r: "reachable wall_state"
    unfolding wall_state_def by (rule state_after_reachable [THEN conjunct2, OF _ _ ev]) simp_all
  have inv: "game_inv wall_state" using r by (rule reachable_inv)
  have m: "isValidMove (board wall_state) (currentX wall_state + 1) (currentY wall_state)
        (shape_val wall_state) = Inr False"
    by code_simp
  have t: "isValidMove (board wall_state) (currentX wall_state) (currentY wall_state)
        (rotate_mask (shape_val wall_state)) = Inr False"
    by code_simp
  from rotatePiece_effect [OF inv] obtain h where
    rot: "rotated (store wall_state) (shape (currentPiece wall_state)) = Inr (h, nmats (store wall_state))"
    and val: "mask_at h (nmats (store wall_state)) = rotate_mask (shape_val wall_state)"
    by blast
  have t': "isValidMove (board wall_state) (currentX wall_state) (currentY wall_state)
        (mask_at h (nmats (store wall_state))) = Inr False"
    using t val by simp
  from invalid_request_is_noop [of wall_state 1 h "nmats (store wall_state)"]
  have "movePiece wall_state 1 = Inr wall_state"
    and "rotatePiece wall_state = Inr (wall_state\<lparr>store := h\<rparr>)"
    and "shape_val (wall_state\<lparr>store := h\<rparr>) = shape_val wall_state"
    using m rot t' inv by blast+
  then show ?thesis using r m t by blast
qed

text \<open>
  C8: the board created at start-up has \<open>ROWS\<close> rows of \<open>COLS\<close> cells, each the empty
  marker or a colour, and so has the board of every state the game reaches: each key and
  each tick returns without raising, in a state whose board satisfies the invariant. The
  invariant of the running game, which includes the board's, is kept by \<open>movePiece\<close>,
  \<open>rotatePiece\<close>, the gravity drop and \<open>placePiece\<close>; \<open>clearLines\<close> and \<open>gameOver\<close> keep
  the board's.
\<close>

theorem board_invariant_preserved:
  "board_ok (createBoard [])
   \<and> (k < 7 \<and> c < 16777215 \<longrightarrow> reachable (start_game k c))
   \<and> (reachable s \<longrightarrow> game_inv s)
   \<and> (game_inv s \<longrightarrow> board_ok (board s))
   \<and> (reachable s \<and> random_ok s ev \<longrightarrow> (\<exists>t. handle s ev = Inr t \<and> reachable t \<and> board_ok (board t)))
   \<and> (game_inv s \<longrightarrow> (\<exists>t. movePiece s d = Inr t \<and> game_inv t))
   \<and> (game_inv s \<longrightarrow> (\<exists>t. rotatePiece s = Inr t \<and> game_inv t))
   \<and> (game_inv s \<and> k < 7 \<longrightarrow> (\<exists>t. drop_piece s k c = Inr t \<and> game_inv t))
   \<and> (game_inv s \<and> k < 7 \<longrightarrow> (\<exists>t. placePiece s k c = Inr t \<and> game_inv t))
   \<and> (board_ok b \<longrightarrow> (\<exists>b' sc'. clearLines b sc = Inr (b', sc') \<and> board_ok b'))
   \<and> board_ok (board (gameOver s))"
proof -
  have a: "k < 7 \<and> c < 16777215 \<longrightarrow> reachable (start_game k c)"
    using reachable_start_game by blast
  have b: "reachable s \<longrightarrow> game_inv s" using reachable_inv by blast
  have c: "game_inv s \<longrightarrow> board_ok (board s)" by (simp add: game_inv_def)
  have d: "reachable s \<and> random_ok s ev \<longrightarrow> (\<exists>t. handle s ev = Inr t \<and> reachable t \<and> board_ok (board t))"
  proof (intro impI, elim conjE)
    assume r: "reachable s" and ok: "random_ok s ev"
    from handle_inv [OF reachable_inv [OF r] ok] obtain t where t: "handle s ev = Inr t" "game_inv t"
      by blast
    from r ok t(1) have "reachable t" by (rule reachable.step)
    with t show "\<exists>t. handle s ev = Inr t \<and> reachable t \<and> board_ok (board t)"
      by (auto simp: game_inv_def)
  qed
  have e: "game_inv s \<longrightarrow> (\<exists>t. movePiece s d = Inr t \<and> game_inv t)"
    using movePiece_inv by blast
  have f: "game_inv s \<longrightarrow> (\<exists>t. rotatePiece s = Inr t \<and> game_inv t)"
    using rotatePiece_inv by blast
  have g: "game_inv s \<and> k < 7 \<longrightarrow> (\<exists>t. drop_piece s k c = Inr t \<and> game_inv t)"
    using drop_piece_inv by blast
  have h: "game_inv s \<and> k < 7 \<longrightarrow> (\<exists>t. placePiece s k c = Inr t \<and> game_inv t)"
    using placePiece_inv by blast
  have i: "board_ok b \<longrightarrow> (\<exists>b' sc'. clearLines b sc = Inr (b', sc') \<and> board_ok b')"
    using clearLines_ok by blast
  have j: "board_ok (board (gameOver s))"
    by (simp add: gameOver_def board_ok_createBoard)
  show ?thesis by (intro conjI board_ok_createBoard a b c d e f g h i j)
qed

theorem board_invariant_preserved_witness:
  "(2::nat) < 7 \<and> (255::nat) < 16777215 \<and> reachable (start_game 2 255)
   \<and> random_ok (start_game 2 255) (Tick 2 255)
   \<and> game_inv (start_game 2 255) \<and> board_ok (board (start_game 2 255))
   \<and> (\<exists>t. handle (start_game 2 255) (Tick 2 255) = Inr t \<and> reachable t \<and> board_ok (board t))
   \<and> (\<exists>t. placePiece (start_game 2 255) 2 255 = Inr t \<and> game_inv t)
   \<and> board_ok (createBoard [])
   \<and> (\<exists>b' sc'. clearLines (createBoard []) 0 = Inr (b', sc') \<and> board_ok b')"
proof -
  note t = board_invariant_preserved [of 2 255 "start_game 2 255" "Tick 2 255" 1 "createBoard []" 0]
  have n: "(2::nat) < 7 \<and> (255::nat) < 16777215" by simp
  from t n have r: "reachable (start_game 2 255)" by blast
  from t r have inv: "game_inv (start_game 2 255)" by blast
  have ok: "random_ok (start_game 2 255) (Tick 2 255)"
    using inv by (simp add: game_inv_def PIECES0_def)
  from t n r inv ok show ?thesis by blast
qed

text \<open>
  C10: in every state the game reaches, the catalog array holds the references it held at
  start-up and every array of the catalog has its initial contents. A spawn from a grid
  entry makes the entry's own array the piece's \<open>shape\<close> and allocates nothing; a spawn
  from the flat first entry allocates one outer array around the catalog's row.
  \<open>placePiece\<close> and \<open>rotatePiece\<close> only add arrays to the store, \<open>movePiece\<close> leaves it
  alone; a rotation that changes the piece's \<open>shape\<close> makes it the outer array just
  allocated, whose rows were all allocated by that rotation.
\<close>

theorem catalog_never_mutated:
  assumes "reachable s"
  shows "PIECES s = PIECES0 \<and> heap_extends heap0 (store s)
     \<and> map (entry_val (store s)) (PIECES s) =
         [Inl [Num 1, Num 1, Num 1, Num 1],
          Inr [[Num 1, Num 1, Num 1], [Num 0, Num 1, Num 0]],
          Inr [[Num 1, Num 1], [Num 1, Num 1]],
          Inr [[Num 1, Num 1, Num 0], [Num 0, Num 1, Num 1]],
          Inr [[Num 0, Num 1, Num 1], [Num 1, Num 1, Num 0]],
          Inr [[Num 1, Num 0, Num 0], [Num 1, Num 1, Num 1]],
          Inr [[Num 0, Num 0, Num 1], [Num 1, Num 1, Num 1]]]
     \<and> map (entry_val (store s)) (PIECES s) = map (entry_val heap0) PIECES0
     \<and> (0 < k \<and> k < 7 \<and> newPiece s k c = Inr t \<longrightarrow>
          store t = store s \<and> PIECES s ! k = Grid (shape (currentPiece t)))
     \<and> (newPiece s 0 c = Inr t \<longrightarrow>
          PIECES s ! 0 = Flat 0 \<and> shape (currentPiece t) = nmats (store s)
          \<and> mats (store t) (shape (currentPiece t)) = [0] \<and> heap_extends (store s) (store t))
     \<and> (k < 7 \<and> placePiece s k c = Inr t \<longrightarrow> heap_extends (store s) (store t) \<and> PIECES t = PIECES s)
     \<and> (movePiece s d = Inr t \<longrightarrow> store t = store s \<and> PIECES t = PIECES s)
     \<and> (rotatePiece s = Inr t \<longrightarrow>
          heap_extends (store s) (store t) \<and> PIECES t = PIECES s
          \<and> (shape (currentPiece t) = shape (currentPiece s)
              \<or> shape (currentPiece t) = nmats (store s)
                 \<and> (\<forall>r\<in>set (mats (store t) (shape (currentPiece t))). nrows (store s) \<le> r)))"
proof -
  have inv: "game_inv s" using assms by (rule reachable_inv)
  then have p: "PIECES s = PIECES0" and h: "heap_extends heap0 (store s)" and ok: "heap_ok (store s)"
    by (simp_all add: game_inv_def)
  have v: "map (entry_val (store s)) (PIECES s) =
         [Inl [Num 1, Num 1, Num 1, Num 1],
          Inr [[Num 1, Num 1, Num 1], [Num 0, Num 1, Num 0]],
          Inr [[Num 1, Num 1], [Num 1, Num 1]],
          Inr [[Num 1, Num 1, Num 0], [Num 0, Num 1, Num 1]],
          Inr [[Num 0, Num 1, Num 1], [Num 1, Num 1, Num 0]],
          Inr [[Num 1, Num 0, Num 0], [Num 1, Num 1, Num 1]],
          Inr [[Num 0, Num 0, Num 1], [Num 1, Num 1, Num 1]]]"
    unfolding p by (rule catalog_value [OF h])
  have v0: "map (entry_val (store s)) (PIECES s) = map (entry_val heap0) PIECES0"
    unfolding v by (rule catalog_value [OF heap_extends_refl, symmetric])
  have g: "0 < k \<and> k < 7 \<and> newPiece s k c = Inr t \<longrightarrow>
          store t = store s \<and> PIECES s ! k = Grid (shape (currentPiece t))"
  proof (intro impI, elim conjE)
    assume k: "0 < k" "k < 7" and n: "newPiece s k c = Inr t"
    from newPiece_spawn [OF p h ok k(2), of c] n k(1)
    have st: "store t = store s" and sh: "shape (currentPiece t) = k - 1" by auto
    from k consider "k = 1" | "k = 2" | "k = 3" | "k = 4" | "k = 5" | "k = 6" by arith
    then have "PIECES0 ! k = Grid (k - 1)" by cases (simp_all add: PIECES0_def)
    then show "store t = store s \<and> PIECES s ! k = Grid (shape (currentPiece t))"
      using st sh p by simp
  qed
  have f: "newPiece s 0 c = Inr t \<longrightarrow>
          PIECES s ! 0 = Flat 0 \<and> shape (currentPiece t) = nmats (store s)
          \<and> mats (store t) (shape (currentPiece t)) = [0] \<and> heap_extends (store s) (store t)"
  proof
    assume n: "newPiece s 0 c = Inr t"
    from newPiece_spawn [OF p h ok, of 0 c] n
    show "PIECES s ! 0 = Flat 0 \<and> shape (currentPiece t) = nmats (store s)
          \<and> mats (store t) (shape (currentPiece t)) = [0] \<and> heap_extends (store s) (store t)"
      using p by (auto simp: PIECES0_def)
  qed
  have pl: "k < 7 \<and> placePiece s k c = Inr t \<longrightarrow> heap_extends (store s) (store t) \<and> PIECES t = PIECES s"
    using placePiece_extends [OF inv] by blast
  have mv: "movePiece s d = Inr t \<longrightarrow> store t = store s \<and> PIECES t = PIECES s"
    by (cases "isValidMove (board s) (currentX s + d) (currentY s) (shape_val s)")
       (auto simp: movePiece_def)
  have rt: "rotatePiece s = Inr t \<longrightarrow>
          heap_extends (store s) (store t) \<and> PIECES t = PIECES s
          \<and> (shape (currentPiece t) = shape (currentPiece s)
              \<or> shape (currentPiece t) = nmats (store s)
                 \<and> (\<forall>r\<in>set (mats (store t) (shape (currentPiece t))). nrows (store s) \<le> r))"
  proof
    assume r: "rotatePiece s = Inr t"
    from rotatePiece_effect [OF inv] obtain h' where
      e: "heap_extends (store s) h'"
      and fr: "\<forall>r\<in>set (mats h' (nmats (store s))). nrows (store s) \<le> r"
      and eq: "rotatePiece s =
          Inr (if fits (board s) (currentX s) (currentY s) (rotate_mask (shape_val s))
               then s\<lparr>store := h', currentPiece := (currentPiece s)\<lparr>shape := nmats (store s)\<rparr>\<rparr>
               else s\<lparr>store := h'\<rparr>)"
      by blast
    show "heap_extends (store s) (store t) \<and> PIECES t = PIECES s
          \<and> (shape (currentPiece t) = shape (currentPiece s)
              \<or> shape (currentPiece t) = nmats (store s)
                 \<and> (\<forall>r\<in>set (mats (store t) (shape (currentPiece t))). nrows (store s) \<le> r))"
      using r e fr unfolding eq
      by (cases "fits (board s) (currentX s) (currentY s) (rotate_mask (shape_val s))") auto
  qed
  show ?thesis by (intro conjI p h v v0 g f pl mv rt)
qed

theorem catalog_never_mutated_witness:
  "reachable turned_state
   \<and> PIECES turned_state = PIECES0
   \<and> map (entry_val (store turned_state)) (PIECES turned_state) = map (entry_val heap0) PIECES0
   \<and> shape (currentPiece (start_game 1 255)) = 0
   \<and> shape (currentPiece turned_state) = 6
   \<and> shape_val turned_state = [[Num 0, Num 1], [Num 1, Num 1], [Num 0, Num 1]]"
proof -
  have r: "reachable turned_state"
    unfolding turned_state_def
    by (rule state_after_reachable [THEN conjunct2]) (simp_all add: game0_def PIECES0_def)
  have a: "shape (currentPiece (start_game 1 255)) = 0" by code_simp
  have b: "shape (currentPiece turned_state) = 6" by code_simp
  have c: "shape_val turned_state = [[Num 0, Num 1], [Num 1, Num 1], [Num 0, Num 1]]" by code_simp
  from catalog_never_mutated [OF r]
  have "PIECES turned_state = PIECES0"
    and "map (entry_val (store turned_state)) (PIECES turned_state) = map (entry_val heap0) PIECES0"
    by blast+
  then show ?thesis using r a b c by blast
qed

end
